theory Spec2Isabelle
  imports Complex_Main
begin

section \<open>Data model of \<open>fairscale/optim/oss_reduce_wrap.py\<close>\<close>

text \<open>
  Tensors are modelled flattened: a tensor is its dtype, the list of its elements in
  logical order, its \<open>requires_grad\<close> flag and the kind of its memory layout. A
  parameter is its element count (\<open>p.numel()\<close>), its dtype, its gradient slot \<open>p.grad\<close>,
  which is \<open>None\<close> or a tensor, and the kind of its own memory layout. Parameter objects
  are identified by their position (rank, index) in the per-rank lists of a device: every
  parameter object occurs at one position only, and no two gradient slots share a tensor.

  Element values are exact rationals. The rounding of the floating-point types (in
  \<open>div_\<close>, in the dtype conversion of \<open>copy_\<close>, in the sum of a reduce) is not part of the
  model: what the theorems below say of the content of a tensor says which elements of
  which gradients it comes from and which operations were applied to them, not the
  floating-point value.
\<close>

datatype dtype = float16 | float32 | float64

text \<open>
  The memory layout of a tensor, as far as the code depends on it: whether \<open>view(-1)\<close>
  succeeds on the tensor and what \<open>zeros_like\<close> makes of it. \<open>Contiguous\<close>: the strides
  allow \<open>view(-1)\<close>, as those of every contiguous tensor do. \<open>Permuted\<close>: the strides are
  non-overlapping and dense and \<open>view(-1)\<close> raises (a transposed matrix). \<open>Gapped\<close>: the
  strides are not dense and \<open>view(-1)\<close> raises (a block of columns of a matrix).
\<close>

datatype layout = Contiguous | Permuted | Gapped

text \<open>
  The exceptions. \<open>RequiresGradError\<close> is the \<open>RuntimeError\<close> raised at line 134;
  \<open>ViewError\<close>, \<open>ShapeError\<close> and \<open>NegativeDimError\<close> are the \<open>RuntimeError\<close>s PyTorch
  raises from \<open>view\<close>, from \<open>copy_\<close> or \<open>view_as\<close> on sizes that do not agree, and from
  \<open>torch.zeros\<close> on a negative size.
\<close>

datatype error =
    IndexError
  | KeyError
  | AttributeError
  | RequiresGradError
  | ViewError
  | ShapeError
  | NegativeDimError

record tensor =
  t_dtype :: dtype
  t_data :: "rat list"
  requires_grad :: bool
  t_layout :: layout

record param =
  p_numel :: nat
  p_dtype :: dtype
  grad :: "tensor option"
  p_layout :: layout

text \<open>An asynchronous reduce that was submitted: which tensor it was issued on.\<close>

datatype request =
    BucketReduce nat
  | GradReduce nat nat

subsection \<open>Tensor primitives used by the reducer\<close>

text \<open>\<open>torch.zeros(n, dtype=d)\<close>: a negative size raises; the result is contiguous.\<close>

definition zeros :: "int \<Rightarrow> dtype \<Rightarrow> error + tensor" where
  "zeros n d =
     (if n < 0 then Inl NegativeDimError
      else Inr \<lparr>t_dtype = d, t_data = replicate (nat n) 0, requires_grad = False, t_layout = Contiguous\<rparr>)"

text \<open>
  \<open>torch.zeros_like(p)\<close>, whose memory format is \<open>preserve_format\<close>: the result has the
  strides of \<open>p\<close> when these are non-overlapping and dense, and is contiguous otherwise.
\<close>

definition zeros_like_layout :: "layout \<Rightarrow> layout" where
  "zeros_like_layout l = (case l of Gapped \<Rightarrow> Contiguous | Permuted \<Rightarrow> Permuted
                          | Contiguous \<Rightarrow> Contiguous)"

definition zeros_like :: "param \<Rightarrow> tensor" where
  "zeros_like p =
     \<lparr>t_dtype = p_dtype p, t_data = replicate (p_numel p) 0, requires_grad = False,
      t_layout = zeros_like_layout (p_layout p)\<rparr>"

text \<open>\<open>if p.grad is None: p.grad = torch.zeros_like(p)\<close>.\<close>

definition fill_grad :: "param \<Rightarrow> param" where
  "fill_grad p = (case grad p of None \<Rightarrow> p\<lparr>grad := Some (zeros_like p)\<rparr> | Some g \<Rightarrow> p)"

text \<open>\<open>t.div_(world_size)\<close>, in place on the data of \<open>t\<close>; the division is exact here.\<close>

definition div_tensor :: "tensor \<Rightarrow> nat \<Rightarrow> tensor" where
  "div_tensor t world_size = t\<lparr>t_data := map (\<lambda>x. x / of_nat world_size) (t_data t)\<rparr>"

text \<open>
  \<open>dst.copy_(src)\<close> on one-dimensional tensors: the source must have the size of the
  destination or size one (it is then broadcast); the result is the new content of the
  destination. The conversion to the destination's dtype is not modelled.
\<close>

definition tensor_copy :: "rat list \<Rightarrow> rat list \<Rightarrow> error + rat list" where
  "tensor_copy dst src =
     (if length src = length dst then Inr src
      else if length src = 1 then Inr (replicate (length dst) (hd src))
      else Inl ShapeError)"

text \<open>\<open>buf[offset:endp]\<close> for \<open>0 \<le> offset \<le> endp\<close>: a slice is clamped to the buffer.\<close>

definition py_slice :: "rat list \<Rightarrow> nat \<Rightarrow> nat \<Rightarrow> rat list" where
  "py_slice buf offset endp = take (endp - offset) (drop offset buf)"

text \<open>\<open>buf[offset:endp].copy_(src)\<close>: the slice is a view, the buffer is written in place.\<close>

definition slice_copy :: "rat list \<Rightarrow> nat \<Rightarrow> nat \<Rightarrow> rat list \<Rightarrow> error + rat list" where
  "slice_copy buf offset endp src =
     (case tensor_copy (py_slice buf offset endp) src of
        Inl e \<Rightarrow> Inl e
      | Inr d \<Rightarrow> Inr (take offset buf @ d @ drop endp buf))"

text \<open>
  \<open>t.view_as(p)\<close> on a slice of a buffer, which is contiguous: the element counts must
  agree.
\<close>

definition view_as :: "rat list \<Rightarrow> nat \<Rightarrow> error + rat list" where
  "view_as xs n = (if length xs = n then Inr xs else Inl ShapeError)"

text \<open>\<open>t.view(-1)\<close>: raises unless the strides of \<open>t\<close> allow a flat view.\<close>

definition flat_view :: "tensor \<Rightarrow> error + rat list" where
  "flat_view t = (if t_layout t = Contiguous then Inr (t_data t) else Inl ViewError)"

section \<open>The loops of \<open>_reduce_grads_task\<close>\<close>

text \<open>
  The packing loop (lines 111 to 119): \<open>i_bucketed\<close> counts the tensors packed in the
  buffer, \<open>offset\<close> is the next free position. In line 117 the argument
  \<open>params[i_bucketed].grad.data.view(-1)\<close> is evaluated, and may raise, before \<open>copy_\<close> is
  called.
\<close>

function pack_loop ::
  "nat \<Rightarrow> param list \<Rightarrow> nat \<Rightarrow> nat \<Rightarrow> tensor \<Rightarrow> error + (nat \<times> nat \<times> tensor)" where
  "pack_loop buffer_size params i_bucketed offset buffer =
     (if i_bucketed < length params \<and> offset + p_numel (params ! i_bucketed) < buffer_size
      then
        (let endp = offset + p_numel (params ! i_bucketed) in
         case grad (params ! i_bucketed) of
           None \<Rightarrow> Inl AttributeError
         | Some g \<Rightarrow>
             (case flat_view g of
                Inl e \<Rightarrow> Inl e
              | Inr src \<Rightarrow>
                  (case slice_copy (t_data buffer) offset endp src of
                     Inl e \<Rightarrow> Inl e
                   | Inr d \<Rightarrow>
                       pack_loop buffer_size params (Suc i_bucketed) endp
                         (buffer\<lparr>t_data := d\<rparr>))))
      else Inr (i_bucketed, offset, buffer))"
  by pat_completeness auto
termination
  by (relation "measure (\<lambda>(buffer_size, params, i_bucketed, offset, buffer).
        length params - i_bucketed)") auto

declare pack_loop.simps [simp del]

text \<open>
  The loop over \<open>params[i_bucketed:]\<close> (lines 131 to 137): \<open>i\<close> is the index of the head
  of \<open>ps\<close> in the rank's list. A gradient that requires grad aborts; otherwise the
  gradient is scaled in place and one reduce is submitted on it.
\<close>

fun reduce_direct ::
  "nat \<Rightarrow> nat \<Rightarrow> nat \<Rightarrow> param list \<Rightarrow> error + (param list \<times> request list)" where
  "reduce_direct world_size rank i [] = Inr ([], [])"
| "reduce_direct world_size rank i (p # ps) =
     (case grad p of
        None \<Rightarrow> Inl AttributeError
      | Some g \<Rightarrow>
          if requires_grad g then Inl RequiresGradError
          else
            (case reduce_direct world_size rank (Suc i) ps of
               Inl e \<Rightarrow> Inl e
             | Inr (ps', requests) \<Rightarrow>
                 Inr (p\<lparr>grad := Some (div_tensor g world_size)\<rparr> # ps',
                      GradReduce rank i # requests)))"

text \<open>
  One iteration of the loop over the ranks (lines 99 to 137), for rank \<open>rank\<close> with its
  parameter list and its buffer. It returns the parameters and the buffer as the
  iteration leaves them, the entry it appended to \<open>bucket_requests\<close> (at most one, the
  handle paired with the rank) and the handles it appended to \<open>requests\<close>.
\<close>

definition issue_rank ::
  "nat \<Rightarrow> nat \<Rightarrow> nat \<Rightarrow> param list \<Rightarrow> tensor
     \<Rightarrow> error + (param list \<times> tensor \<times> (request \<times> nat) list \<times> request list)" where
  "issue_rank world_size buffer_size rank params buffer =
     (if length params = 0 then Inr (params, buffer, [], [])
      else
        (let params1 = map fill_grad params in
         case pack_loop buffer_size params1 0 0 buffer of
           Inl e \<Rightarrow> Inl e
         | Inr (i_bucketed, offset, buffer1) \<Rightarrow>
             (let (buffer2, bucket_requests) =
                    (if i_bucketed > 0
                     then (div_tensor buffer1 world_size, [(BucketReduce rank, rank)])
                     else (buffer1, []))
              in
                case reduce_direct world_size rank i_bucketed (drop i_bucketed params1) of
                  Inl e \<Rightarrow> Inl e
                | Inr (suffix, requests) \<Rightarrow>
                    Inr (take i_bucketed params1 @ suffix, buffer2, bucket_requests, requests))))"

text \<open>
  The loop \<open>for (rank, params), buffer in zip(enumerate(per_rank_params), buffers)\<close>: it
  stops with the shorter list, and what lies beyond is left as it is.
\<close>

fun issue_loop ::
  "nat \<Rightarrow> nat \<Rightarrow> nat \<Rightarrow> param list list \<Rightarrow> tensor list
     \<Rightarrow> error + (param list list \<times> tensor list \<times> (request \<times> nat) list \<times> request list)" where
  "issue_loop world_size buffer_size rank (params # rest) (buffer # buffers) =
     (case issue_rank world_size buffer_size rank params buffer of
        Inl e \<Rightarrow> Inl e
      | Inr (params', buffer', bucket_requests, requests) \<Rightarrow>
          (case issue_loop world_size buffer_size (Suc rank) rest buffers of
             Inl e \<Rightarrow> Inl e
           | Inr (rest', buffers', bucket_requests', requests') \<Rightarrow>
               Inr (params' # rest', buffer' # buffers',
                    bucket_requests @ bucket_requests', requests @ requests')))"
| "issue_loop world_size buffer_size rank per_rank_params buffers =
     Inr (per_rank_params, buffers, [], [])"

text \<open>
  The unpacking loop (lines 144 to 153): the same test as the packing loop, copying each
  slice of the buffer back into the gradient it was packed from.
\<close>

function unpack_loop ::
  "nat \<Rightarrow> param list \<Rightarrow> nat \<Rightarrow> nat \<Rightarrow> tensor \<Rightarrow> error + param list" where
  "unpack_loop buffer_size params i_bucketed offset buffer =
     (if i_bucketed < length params \<and> offset + p_numel (params ! i_bucketed) < buffer_size
      then
        (let endp = offset + p_numel (params ! i_bucketed) in
         case grad (params ! i_bucketed) of
           None \<Rightarrow> Inl AttributeError
         | Some g \<Rightarrow>
             (case view_as (py_slice (t_data buffer) offset endp) (p_numel (params ! i_bucketed)) of
                Inl e \<Rightarrow> Inl e
              | Inr v \<Rightarrow>
                  (case tensor_copy (t_data g) v of
                     Inl e \<Rightarrow> Inl e
                   | Inr d \<Rightarrow>
                       unpack_loop buffer_size
                         (params[i_bucketed := (params ! i_bucketed)\<lparr>grad := Some (g\<lparr>t_data := d\<rparr>)\<rparr>])
                         (Suc i_bucketed) endp buffer)))
      else Inr params)"
  by pat_completeness auto
termination
  by (relation "measure (\<lambda>(buffer_size, params, i_bucketed, offset, buffer).
        length params - i_bucketed)") auto

declare unpack_loop.simps [simp del]

section \<open>Completion of the submitted reduces\<close>

text \<open>
  \<open>dist.reduce(tensor, dst, group, async_op=True)\<close> returns a handle and changes the tensor
  in place by the time \<open>wait()\<close> on the handle returns. Between the submission and the
  wait the code does not touch the tensor, so the effect is applied at the wait: the
  transport is a function \<open>recv\<close> that gives, for a request and the local content of its
  tensor, the content after the reduce. The transport is an external collaborator: it
  is assumed to accept every tensor it is given and not to fail.
\<close>

type_synonym transport = "request \<Rightarrow> rat list \<Rightarrow> rat list"

text \<open>The tensor a handle was issued on always exists: the handle came from the loop over
  the ranks; on an index out of range the update below leaves the state as it is.\<close>

fun complete_request ::
  "transport \<Rightarrow> request \<Rightarrow> param list list \<times> tensor list \<Rightarrow> param list list \<times> tensor list" where
  "complete_request recv (BucketReduce r) (per_rank_params, buffers) =
     (per_rank_params,
      buffers[r := (buffers ! r)\<lparr>t_data := recv (BucketReduce r) (t_data (buffers ! r))\<rparr>])"
| "complete_request recv (GradReduce r j) (per_rank_params, buffers) =
     (per_rank_params
        [r := (per_rank_params ! r)
           [j := (per_rank_params ! r ! j)
              \<lparr>grad := map_option (\<lambda>g. g\<lparr>t_data := recv (GradReduce r j) (t_data g)\<rparr>)
                         (grad (per_rank_params ! r ! j))\<rparr>]],
      buffers)"

text \<open>
  The loop over \<open>bucket_requests\<close> (lines 140 to 153): wait, then unpack when the rank the
  handle is paired with is \<open>self_rank\<close>.
\<close>

fun wait_buckets ::
  "transport \<Rightarrow> nat \<Rightarrow> nat \<Rightarrow> (request \<times> nat) list \<Rightarrow> param list list \<times> tensor list
     \<Rightarrow> error + (param list list \<times> tensor list)" where
  "wait_buckets recv buffer_size self_rank [] st = Inr st"
| "wait_buckets recv buffer_size self_rank ((future, rank) # rest) st =
     (let (per_rank_params, buffers) = complete_request recv future st in
      if rank = self_rank then
        (if rank < length per_rank_params \<and> rank < length buffers then
           (case unpack_loop buffer_size (per_rank_params ! rank) 0 0 (buffers ! rank) of
              Inl e \<Rightarrow> Inl e
            | Inr params \<Rightarrow>
                wait_buckets recv buffer_size self_rank rest
                  (per_rank_params[rank := params], buffers))
         else Inl IndexError)
      else wait_buckets recv buffer_size self_rank rest (per_rank_params, buffers))"

text \<open>\<open>_ = list(map(lambda x: x.wait(), requests))\<close> (line 156).\<close>

fun wait_requests ::
  "transport \<Rightarrow> request list \<Rightarrow> param list list \<times> tensor list \<Rightarrow> param list list \<times> tensor list" where
  "wait_requests recv [] st = st"
| "wait_requests recv (x # requests) st = wait_requests recv requests (complete_request recv x st)"

section \<open>\<open>_reduce_grads_task\<close>\<close>

text \<open>
  The state a call works on: the per-rank parameter lists and the buffers of one device.
  The first half of the function (lines 95 to 137) submits every reduce; it returns the
  state with \<open>buffer_size\<close>, \<open>bucket_requests\<close> and \<open>requests\<close>. \<open>buffers[0]\<close> raises on an
  empty list.
\<close>

definition issue_phase ::
  "nat \<Rightarrow> param list list \<Rightarrow> tensor list
     \<Rightarrow> error + (nat \<times> param list list \<times> tensor list \<times> (request \<times> nat) list \<times> request list)" where
  "issue_phase world_size per_rank_params buffers =
     (case buffers of
        [] \<Rightarrow> Inl IndexError
      | b0 # _ \<Rightarrow>
          (let buffer_size = length (t_data b0) in
           case issue_loop world_size buffer_size 0 per_rank_params buffers of
             Inl e \<Rightarrow> Inl e
           | Inr (per_rank_params', buffers', bucket_requests, requests) \<Rightarrow>
               Inr (buffer_size, per_rank_params', buffers', bucket_requests, requests)))"

text \<open>The second half (lines 139 to 156) waits on every handle.\<close>

definition complete_phase ::
  "transport \<Rightarrow> nat
     \<Rightarrow> nat \<times> param list list \<times> tensor list \<times> (request \<times> nat) list \<times> request list
     \<Rightarrow> error + (param list list \<times> tensor list \<times> (request \<times> nat) list \<times> request list)" where
  "complete_phase recv self_rank issued =
     (case issued of (buffer_size, per_rank_params, buffers, bucket_requests, requests) \<Rightarrow>
        (case wait_buckets recv buffer_size self_rank bucket_requests (per_rank_params, buffers) of
           Inl e \<Rightarrow> Inl e
         | Inr st \<Rightarrow>
             (case wait_requests recv requests st of
                (per_rank_params', buffers') \<Rightarrow>
                  Inr (per_rank_params', buffers', bucket_requests, requests))))"

text \<open>
  The whole function. Beside the state it leaves, the result lists the reduces it
  submitted, in the order of submission within each of the two lists.
\<close>

definition reduce_grads_task ::
  "transport \<Rightarrow> tensor list \<Rightarrow> param list list \<Rightarrow> nat \<Rightarrow> nat
     \<Rightarrow> error + (param list list \<times> tensor list \<times> (request \<times> nat) list \<times> request list)" where
  "reduce_grads_task recv buffers per_rank_params self_rank world_size =
     (case issue_phase world_size per_rank_params buffers of
        Inl e \<Rightarrow> Inl e
      | Inr issued \<Rightarrow> complete_phase recv self_rank issued)"

section \<open>\<open>ModelDispatch\<close>\<close>

type_synonym device = string

text \<open>
  The object's fields the reducer uses. \<open>base_model\<close> stands for
  \<open>base_model.parameters()\<close>, of which only the element counts are read;
  \<open>per_device_params\<close> stands for the items of \<open>sharded_optimizer.per_device_params\<close>, in
  the dictionary's order; a dictionary has every key once.
\<close>

record model_dispatch =
  base_model :: "param list"
  per_device_params :: "(device \<times> param list list) list"
  md_rank :: nat
  md_world_size :: nat
  reduce_buffers :: "(device \<times> tensor list) list"

text \<open>
  The allocation loop of \<open>__init__\<close> (lines 60 to 64). \<open>per_device[0][0]\<close> raises when the
  device has no rank list or rank 0 has no parameter there.
\<close>

fun alloc_buffers ::
  "int \<Rightarrow> (device \<times> param list list) list \<Rightarrow> error + (device \<times> tensor list) list" where
  "alloc_buffers buffer_size [] = Inr []"
| "alloc_buffers buffer_size ((device, per_device) # rest) =
     (case per_device of
        [] \<Rightarrow> Inl IndexError
      | params0 # _ \<Rightarrow>
          (case params0 of
             [] \<Rightarrow> Inl IndexError
           | p0 # _ \<Rightarrow>
               (let buffer_dtype = p_dtype p0 in
                case zeros buffer_size buffer_dtype of
                  Inl e \<Rightarrow> Inl e
                | Inr z \<Rightarrow>
                    (case alloc_buffers buffer_size rest of
                       Inl e \<Rightarrow> Inl e
                     | Inr bufs \<Rightarrow> Inr ((device, replicate (length per_device) z) # bufs)))))"

text \<open>\<open>__init__\<close>: the rank and the world size come from the process group.\<close>

definition init ::
  "param list \<Rightarrow> (device \<times> param list list) list \<Rightarrow> nat \<Rightarrow> nat \<Rightarrow> int \<Rightarrow> error + model_dispatch" where
  "init base_params sharded rank world_size buffer_size =
     (let buffer_size' = min buffer_size (int (sum_list (map p_numel base_params))) in
      case alloc_buffers buffer_size' sharded of
        Inl e \<Rightarrow> Inl e
      | Inr bufs \<Rightarrow>
          Inr \<lparr>base_model = base_params, per_device_params = sharded, md_rank = rank,
               md_world_size = world_size, reduce_buffers = bufs\<rparr>)"

text \<open>Writing a dictionary entry.\<close>

fun dict_update :: "'k \<Rightarrow> 'v \<Rightarrow> ('k \<times> 'v) list \<Rightarrow> ('k \<times> 'v) list" where
  "dict_update k v [] = [(k, v)]"
| "dict_update k v ((k', v') # kvs) =
     (if k = k' then (k, v) # kvs else (k', v') # dict_update k v kvs)"

text \<open>
  The loop of \<open>dispatch_grads\<close> (lines 77 to 84): \<open>self._reduce_buffers[device]\<close> raises on
  a device without buffers. The tensors are changed in place, which the model writes
  back into the two dictionaries.
\<close>

fun dispatch_devices ::
  "(device \<Rightarrow> transport) \<Rightarrow> nat \<Rightarrow> nat \<Rightarrow> (device \<times> tensor list) list
     \<Rightarrow> (device \<times> param list list) list
     \<Rightarrow> error + ((device \<times> tensor list) list \<times> (device \<times> param list list) list)" where
  "dispatch_devices recv self_rank world_size bufs [] = Inr (bufs, [])"
| "dispatch_devices recv self_rank world_size bufs ((device, per_device) # rest) =
     (case map_of bufs device of
        None \<Rightarrow> Inl KeyError
      | Some buffers \<Rightarrow>
          (case reduce_grads_task (recv device) buffers per_device self_rank world_size of
             Inl e \<Rightarrow> Inl e
           | Inr (per_device', buffers', bucket_requests, requests) \<Rightarrow>
               (case dispatch_devices recv self_rank world_size
                       (dict_update device buffers' bufs) rest of
                  Inl e \<Rightarrow> Inl e
                | Inr (bufs', rest') \<Rightarrow> Inr (bufs', (device, per_device') # rest'))))"

definition dispatch_grads :: "(device \<Rightarrow> transport) \<Rightarrow> model_dispatch \<Rightarrow> error + model_dispatch" where
  "dispatch_grads recv md =
     (case dispatch_devices recv (md_rank md) (md_world_size md) (reduce_buffers md)
             (per_device_params md) of
        Inl e \<Rightarrow> Inl e
      | Inr (bufs, sharded) \<Rightarrow> Inr (md\<lparr>reduce_buffers := bufs, per_device_params := sharded\<rparr>))"

section \<open>Notions used in the statements\<close>

text \<open>
  The number of leading sizes the packing test accepts, starting at offset \<open>off\<close> with
  capacity \<open>C\<close>: the loop's test on the element counts alone.
\<close>

fun bucket_len :: "nat \<Rightarrow> nat list \<Rightarrow> nat \<Rightarrow> nat" where
  "bucket_len C [] off = 0"
| "bucket_len C (n # ns) off = (if off + n < C then Suc (bucket_len C ns (off + n)) else 0)"

text \<open>
  PyTorch keeps a gradient in the shape of its parameter (assigning another shape to
  \<open>p.grad\<close> raises): a gradient that is present has as many elements as its parameter.
\<close>

definition grad_shape_ok :: "param \<Rightarrow> bool" where
  "grad_shape_ok p = (case grad p of None \<Rightarrow> True | Some g \<Rightarrow> length (t_data g) = p_numel p)"

text \<open>The same with the gradient present, as after the loop that fills the empty slots.\<close>

definition grad_ok :: "param \<Rightarrow> bool" where
  "grad_ok p = (case grad p of None \<Rightarrow> False | Some g \<Rightarrow> length (t_data g) = p_numel p)"

text \<open>The flattened content of the gradient slot, \<open>p.grad.data.view(-1)\<close>.\<close>

definition gdata :: "param \<Rightarrow> rat list" where
  "gdata p = (case grad p of None \<Rightarrow> [] | Some g \<Rightarrow> t_data g)"

text \<open>The total element count of the parameters of one device, over all ranks.\<close>

definition device_numel :: "param list list \<Rightarrow> nat" where
  "device_numel per_device = sum_list (map p_numel (concat per_device))"

text \<open>
  A buffer as \<open>__init__\<close> allocates it for a device: zeros, in the dtype of
  \<open>per_device[0][0]\<close>.
\<close>

definition fresh_buffer :: "int \<Rightarrow> param list list \<Rightarrow> tensor" where
  "fresh_buffer buffer_size per_device =
     \<lparr>t_dtype = p_dtype (hd (hd per_device)), t_data = replicate (nat buffer_size) 0,
      requires_grad = False, t_layout = Contiguous\<rparr>"

section \<open>Example configurations\<close>

definition mk_param :: "nat \<Rightarrow> dtype \<Rightarrow> rat list \<Rightarrow> param" where
  "mk_param n d xs = \<lparr>p_numel = n, p_dtype = d,
      grad = Some \<lparr>t_dtype = d, t_data = xs, requires_grad = False, t_layout = Contiguous\<rparr>, p_layout = Contiguous\<rparr>"

definition mk_buffer :: "dtype \<Rightarrow> rat list \<Rightarrow> tensor" where
  "mk_buffer d xs = \<lparr>t_dtype = d, t_data = xs, requires_grad = False, t_layout = Contiguous\<rparr>"

text \<open>
  One device and two ranks. Rank 0 owns parameters of 1, 2 and 5 elements, the second
  without a gradient and of another dtype; rank 1 owns parameters of 1 and 3 elements.
\<close>

definition example_params :: "param list list" where
  "example_params =
     [[mk_param 1 float32 [2], \<lparr>p_numel = 2, p_dtype = float16, grad = None, p_layout = Contiguous\<rparr>,
       mk_param 5 float32 [2, 4, 6, 8, 10]],
      [mk_param 1 float32 [6], mk_param 3 float32 [4, 4, 8]]]"

definition example_sharded :: "(device \<times> param list list) list" where
  "example_sharded = [(''cuda:0'', example_params)]"

definition example_base :: "param list" where
  "example_base = concat example_params"

text \<open>The object \<open>__init__\<close> builds from it on rank 0 with a buffer size of 4.\<close>

definition example_md :: model_dispatch where
  "example_md =
     \<lparr>base_model = example_base, per_device_params = example_sharded, md_rank = 0,
      md_world_size = 2,
      reduce_buffers =
        [(''cuda:0'', [mk_buffer float32 [0, 0, 0, 0], mk_buffer float32 [0, 0, 0, 0]])]\<rparr>"

text \<open>Two devices and two ranks: 3 elements on the first device, 7 on the second.\<close>

definition two_devices :: "(device \<times> param list list) list" where
  "two_devices =
     [(''cuda:0'', [[mk_param 1 float32 [2]], [mk_param 2 float32 [4, 6]]]),
      (''cuda:1'', [[mk_param 3 float32 [1, 1, 1]], [mk_param 4 float32 [2, 2, 2, 2]]])]"

definition two_devices_base :: "param list" where
  "two_devices_base = concat (concat (map snd two_devices))"

definition two_devices_md :: model_dispatch where
  "two_devices_md =
     \<lparr>base_model = two_devices_base, per_device_params = two_devices, md_rank = 0,
      md_world_size = 2,
      reduce_buffers =
        [(''cuda:0'', [mk_buffer float32 (replicate 10 0), mk_buffer float32 (replicate 10 0)]),
         (''cuda:1'', [mk_buffer float32 (replicate 10 0), mk_buffer float32 (replicate 10 0)])]\<rparr>"

text \<open>
  A transport under which every reduce leaves the local tensor as it is: what the
  calling rank sees when the other ranks contribute zeros.
\<close>

definition keep_local :: "device \<Rightarrow> transport" where
  "keep_local device req xs = xs"

text \<open>
  The packed-prefix length of a rank: the \<open>i_bucketed\<close> the packing loop of the dispatch
  ends with on the rank's list (0 where the loop raises).
\<close>

definition packed_prefix :: "nat \<Rightarrow> param list \<Rightarrow> tensor \<Rightarrow> nat" where
  "packed_prefix buffer_size params buffer =
     (case pack_loop buffer_size (map fill_grad params) 0 0 buffer of
        Inl e \<Rightarrow> 0
      | Inr (i_bucketed, offset, buffer') \<Rightarrow> i_bucketed)"

text \<open>The same number computed from the element counts alone.\<close>

definition prefix_len :: "nat \<Rightarrow> param list \<Rightarrow> nat" where
  "prefix_len buffer_size params = bucket_len buffer_size (map p_numel params) 0"

text \<open>The gradient of a parameter is marked as requiring grad.\<close>

definition needs_grad :: "param \<Rightarrow> bool" where
  "needs_grad p = (case grad p of None \<Rightarrow> False | Some g \<Rightarrow> requires_grad g)"

text \<open>A parameter after \<open>p.grad.div_(world_size)\<close>.\<close>

definition scale_grad :: "nat \<Rightarrow> param \<Rightarrow> param" where
  "scale_grad world_size p = p\<lparr>grad := map_option (\<lambda>g. div_tensor g world_size) (grad p)\<rparr>"

text \<open>
  What the submission loop leaves of a rank's list and of its buffer when it does not
  raise: the prefix filled, the suffix filled and scaled; the buffer holding the prefix's
  gradients, scaled as a whole (untouched when nothing was packed).
\<close>

definition issued_params :: "nat \<Rightarrow> nat \<Rightarrow> param list \<Rightarrow> param list" where
  "issued_params world_size buffer_size params =
     take (prefix_len buffer_size params) (map fill_grad params)
     @ map (scale_grad world_size) (drop (prefix_len buffer_size params) (map fill_grad params))"

definition issued_buffer :: "nat \<Rightarrow> nat \<Rightarrow> param list \<Rightarrow> tensor \<Rightarrow> tensor" where
  "issued_buffer world_size buffer_size params buffer =
     (if 0 < prefix_len buffer_size params
      then div_tensor
             (buffer\<lparr>t_data :=
                concat (map gdata (take (prefix_len buffer_size params) (map fill_grad params)))
                @ drop (sum_list (map p_numel (take (prefix_len buffer_size params) params)))
                    (t_data buffer)\<rparr>)
             world_size
      else buffer)"

text \<open>The requests one rank appends to the two lists.\<close>

definition bucket_requests_of :: "nat \<Rightarrow> nat \<times> param list \<Rightarrow> (request \<times> nat) list" where
  "bucket_requests_of buffer_size rp =
     (if 0 < prefix_len buffer_size (snd rp) then [(BucketReduce (fst rp), fst rp)] else [])"

definition requests_of :: "nat \<Rightarrow> nat \<times> param list \<Rightarrow> request list" where
  "requests_of buffer_size rp =
     map (GradReduce (fst rp)) [prefix_len buffer_size (snd rp) ..< length (snd rp)]"

text \<open>
  The state a call of \<open>_reduce_grads_task\<close> can meet: one buffer per rank list, all
  buffers of one size (as \<open>__init__\<close> allocates them), gradients in the shape of their
  parameters.
\<close>

definition task_ok :: "tensor list \<Rightarrow> param list list \<Rightarrow> bool" where
  "task_ok buffers per_rank_params =
     (buffers \<noteq> [] \<and> length buffers = length per_rank_params
      \<and> list_all (\<lambda>b. length (t_data b) = length (t_data (hd buffers))) buffers
      \<and> list_all (list_all grad_shape_ok) per_rank_params)"

text \<open>A reduce does not change the shape of the tensor it runs on.\<close>

definition shape_preserving :: "transport \<Rightarrow> bool" where
  "shape_preserving recv = (\<forall>req xs. length (recv req xs) = length xs)"

text \<open>A parameter with the content of its gradient replaced, and the effect of a completed
  reduce on a buffer and on a gradient.\<close>

definition set_gdata :: "param \<Rightarrow> rat list \<Rightarrow> param" where
  "set_gdata p xs = p\<lparr>grad := map_option (\<lambda>g. g\<lparr>t_data := xs\<rparr>) (grad p)\<rparr>"

definition recv_grad :: "transport \<Rightarrow> nat \<Rightarrow> nat \<Rightarrow> param \<Rightarrow> param" where
  "recv_grad recv r j p = set_gdata p (recv (GradReduce r j) (gdata p))"

text \<open>
  What the unpacking loop leaves of a list when it does not raise, started at the head of
  the list with offset \<open>off\<close> on a buffer of content \<open>d\<close>.
\<close>

fun unpacked :: "nat \<Rightarrow> param list \<Rightarrow> nat \<Rightarrow> rat list \<Rightarrow> param list" where
  "unpacked C [] off d = []"
| "unpacked C (p # ps) off d =
     (if off + p_numel p < C
      then set_gdata p (py_slice d off (off + p_numel p)) # unpacked C ps (off + p_numel p) d
      else p # ps)"

text \<open>
  Some rank has, in its unpacked suffix, a gradient that requires grad.
\<close>

definition suffix_needs_grad :: "nat \<Rightarrow> param list list \<Rightarrow> bool" where
  "suffix_needs_grad C per_rank_params =
     list_ex (\<lambda>params. list_ex needs_grad (drop (prefix_len C params) params)) per_rank_params"

text \<open>
  The gradient the packing loop reads for a parameter, that is the slot as lines 104 to
  106 leave it, can be viewed flat.
\<close>

definition grad_flat :: "param \<Rightarrow> bool" where
  "grad_flat p = (case grad (fill_grad p) of None \<Rightarrow> False | Some g \<Rightarrow> t_layout g = Contiguous)"

text \<open>Every gradient of the packed prefix of a rank can be viewed flat.\<close>

definition prefix_flat :: "nat \<Rightarrow> param list \<Rightarrow> bool" where
  "prefix_flat C params = list_all grad_flat (take (prefix_len C params) params)"

text \<open>
  The error the submission loop raises in the iteration of one rank on a state the call
  can meet, if it raises, and the first such error over the ranks.
\<close>

definition rank_error :: "nat \<Rightarrow> param list \<Rightarrow> error option" where
  "rank_error C params =
     (if \<not> prefix_flat C params then Some ViewError
      else if list_ex needs_grad (drop (prefix_len C params) params) then Some RequiresGradError
      else None)"

fun first_error :: "nat \<Rightarrow> param list list \<Rightarrow> error option" where
  "first_error C [] = None"
| "first_error C (params # prp) =
     (case rank_error C params of Some e \<Rightarrow> Some e | None \<Rightarrow> first_error C prp)"

text \<open>
  The parameter at index \<open>j\<close> of rank \<open>r\<close> as a call on rank \<open>self\<close> leaves it when it
  does not raise: in the suffix, filled, scaled and reduced; in the prefix of the calling
  rank, filled and overwritten with its slice of the reduced buffer; in the prefix of
  another rank, filled.
\<close>

definition final_param ::
  "transport \<Rightarrow> nat \<Rightarrow> nat \<Rightarrow> nat \<Rightarrow> nat \<Rightarrow> nat \<Rightarrow> param list \<Rightarrow> tensor \<Rightarrow> param" where
  "final_param recv world_size C self r j params buffer =
     (if prefix_len C params \<le> j
      then recv_grad recv r j (scale_grad world_size (fill_grad (params ! j)))
      else if r = self
      then set_gdata (fill_grad (params ! j))
             (py_slice (recv (BucketReduce r) (t_data (issued_buffer world_size C params buffer)))
                (sum_list (map p_numel (take j params)))
                (sum_list (map p_numel (take j params)) + p_numel (params ! j)))
      else fill_grad (params ! j))"

text \<open>The buffers of the example, and the transport of \<open>keep_local\<close> for its device.\<close>

definition example_buffers :: "tensor list" where
  "example_buffers = [mk_buffer float32 [0, 0, 0, 0], mk_buffer float32 [0, 0, 0, 0]]"

definition keep :: transport where
  "keep req xs = xs"

text \<open>
  The example with a gradient that requires grad: once on the first parameter of rank 0,
  which is packed, and once on its third parameter, which is not.
\<close>

definition example_prefix_requires_grad :: "param list list" where
  "example_prefix_requires_grad =
     [[\<lparr>p_numel = 1, p_dtype = float32,
         grad = Some \<lparr>t_dtype = float32, t_data = [2], requires_grad = True, t_layout = Contiguous\<rparr>, p_layout = Contiguous\<rparr>,
       \<lparr>p_numel = 2, p_dtype = float16, grad = None, p_layout = Contiguous\<rparr>,
       mk_param 5 float32 [2, 4, 6, 8, 10]],
      [mk_param 1 float32 [6], mk_param 3 float32 [4, 4, 8]]]"

definition example_suffix_requires_grad :: "param list list" where
  "example_suffix_requires_grad =
     [[mk_param 1 float32 [2], \<lparr>p_numel = 2, p_dtype = float16, grad = None, p_layout = Contiguous\<rparr>,
       \<lparr>p_numel = 5, p_dtype = float32,
         grad = Some \<lparr>t_dtype = float32, t_data = [2, 4, 6, 8, 10], requires_grad = True, t_layout = Contiguous\<rparr>, p_layout = Contiguous\<rparr>],
      [mk_param 1 float32 [6], mk_param 3 float32 [4, 4, 8]]]"

text \<open>
  A state with a parameter stored as a transposed matrix, which is dense and not
  contiguous: rank 0 owns parameters of 1, 4 and 5 elements, the second stored transposed
  and with the gradient slot \<open>g\<close>; the buffers hold 8 elements, so that the first two
  parameters of rank 0 and both parameters of rank 1 are packed.
\<close>

definition permuted_state :: "tensor option \<Rightarrow> param list list" where
  "permuted_state g =
     [[mk_param 1 float32 [2],
       \<lparr>p_numel = 4, p_dtype = float32, grad = g, p_layout = Permuted\<rparr>,
       mk_param 5 float32 [2, 4, 6, 8, 10]],
      [mk_param 1 float32 [6], mk_param 3 float32 [4, 4, 8]]]"

definition wide_buffers :: "tensor list" where
  "wide_buffers = [mk_buffer float32 [0, 0, 0, 0, 0, 0, 0, 0],
                   mk_buffer float32 [0, 0, 0, 0, 0, 0, 0, 0]]"

text \<open>
  What a call on rank 0 with world size 2 and the transport \<open>keep\<close> leaves of the example;
  after the submission loop the first gradient of rank 0 is still 2.
\<close>

definition example_result_params :: "param list list" where
  "example_result_params =
     [[mk_param 1 float32 [1], mk_param 2 float16 [0, 0], mk_param 5 float32 [1, 2, 3, 4, 5]],
      [mk_param 1 float32 [6], mk_param 3 float32 [2, 2, 4]]]"

definition example_issued_params :: "param list list" where
  "example_issued_params =
     [[mk_param 1 float32 [2], mk_param 2 float16 [0, 0], mk_param 5 float32 [1, 2, 3, 4, 5]],
      [mk_param 1 float32 [6], mk_param 3 float32 [2, 2, 4]]]"

definition example_result_buffers :: "tensor list" where
  "example_result_buffers = [mk_buffer float32 [1, 0, 0, 0], mk_buffer float32 [3, 0, 0, 0]]"

text \<open>
  The rank a reduce sends its result to: the owner of the tensor's rank list, as a rank of
  the group (the source maps it to the transport's global rank with \<open>_get_global_rank\<close>).
\<close>

fun dst :: "request \<Rightarrow> nat" where
  "dst (BucketReduce r) = r"
| "dst (GradReduce r j) = r"

text \<open>
  Scenario A of the specification: four ranks, buffers of 1000 elements, rank 0 owning
  parameters of 10, 20 and 5000 elements, the second without a gradient.
\<close>

definition scenario_params :: "param list list" where
  "scenario_params =
     [[mk_param 10 float32 (replicate 10 4),
       \<lparr>p_numel = 20, p_dtype = float32, grad = None, p_layout = Contiguous\<rparr>,
       mk_param 5000 float32 (replicate 5000 8)],
      [\<lparr>p_numel = 5, p_dtype = float32, grad = None, p_layout = Contiguous\<rparr>],
      [\<lparr>p_numel = 7, p_dtype = float32, grad = None, p_layout = Contiguous\<rparr>],
      [\<lparr>p_numel = 8, p_dtype = float32, grad = None, p_layout = Contiguous\<rparr>]]"

definition scenario_buffers :: "tensor list" where
  "scenario_buffers = replicate 4 (mk_buffer float32 (replicate 1000 0))"

section \<open>Properties of the packing loop\<close>

lemma slice_copy_fit:
  "offset + length src \<le> length buf \<Longrightarrow>
   slice_copy buf offset (offset + length src) src =
     Inr (take offset buf @ src @ drop (offset + length src) buf)"
  by (simp add: slice_copy_def tensor_copy_def py_slice_def)

lemma bucket_len_le: "bucket_len C ns off \<le> length ns"
  by (induction ns arbitrary: off) auto

lemma grad_flat_Some: "grad p = Some g \<Longrightarrow> grad_flat p = (t_layout g = Contiguous)"
  by (simp add: grad_flat_def fill_grad_def)

lemma pack_loop_eq:
  assumes "list_all grad_ok params" "buffer_size \<le> length (t_data buffer)"
  shows "pack_loop buffer_size params i offset buffer =
     (let k = bucket_len buffer_size (map p_numel (drop i params)) offset;
          ps = take k (drop i params);
          off' = offset + sum_list (map p_numel ps)
      in if list_all grad_flat ps
         then Inr (i + k, off',
                buffer\<lparr>t_data := take offset (t_data buffer) @ concat (map gdata ps)
                                   @ drop off' (t_data buffer)\<rparr>)
         else Inl ViewError)"
  using assms
proof (induction buffer_size params i offset buffer rule: pack_loop.induct)
  case (1 buffer_size params i offset buffer)
  show ?case
  proof (cases "i < length params \<and> offset + p_numel (params ! i) < buffer_size")
    case False
    have "bucket_len buffer_size (map p_numel (drop i params)) offset = 0"
    proof (cases "i < length params")
      case True
      then have "drop i params = params ! i # drop (Suc i) params"
        by (simp add: Cons_nth_drop_Suc)
      with False True show ?thesis by simp
    next
      case False
      then show ?thesis by simp
    qed
    moreover have "pack_loop buffer_size params i offset buffer = Inr (i, offset, buffer)"
      using False by (subst pack_loop.simps) auto
    ultimately show ?thesis
      by (simp add: Let_def)
  next
    case True
    then have il: "i < length params" and fit: "offset + p_numel (params ! i) < buffer_size" by auto
    have dr: "drop i params = params ! i # drop (Suc i) params"
      using il by (simp add: Cons_nth_drop_Suc)
    from 1(2) il have ok: "grad_ok (params ! i)" by (simp add: list_all_length)
    then obtain g where g: "grad (params ! i) = Some g" "length (t_data g) = p_numel (params ! i)"
      by (auto simp: grad_ok_def split: option.splits)
    define e where "e = offset + p_numel (params ! i)"
    have bk: "bucket_len buffer_size (map p_numel (drop i params)) offset =
       Suc (bucket_len buffer_size (map p_numel (drop (Suc i) params)) e)"
      using fit by (simp add: dr e_def)
    show ?thesis
    proof (cases "t_layout g = Contiguous")
      case False
      then have nf: "\<not> grad_flat (params ! i)" by (simp add: grad_flat_Some[OF g(1)])
      have "pack_loop buffer_size params i offset buffer = Inl ViewError"
        using False by (subst pack_loop.simps) (simp add: True g flat_view_def Let_def)
      then show ?thesis
        unfolding bk by (simp add: Let_def dr nf)
    next
      case flat: True
      then have fl: "grad_flat (params ! i)" by (simp add: grad_flat_Some[OF g(1)])
      have fv: "flat_view g = Inr (t_data g)" using flat by (simp add: flat_view_def)
      define d where "d = take offset (t_data buffer) @ t_data g @ drop e (t_data buffer)"
      have sc: "slice_copy (t_data buffer) offset e (t_data g) = Inr d"
        using slice_copy_fit[of offset "t_data g" "t_data buffer"] g fit 1(3)
        by (simp add: d_def e_def)
      have len: "length d = length (t_data buffer)" using g fit 1(3) by (simp add: d_def e_def)
      have bl: "buffer_size \<le> length (t_data (buffer\<lparr>t_data := d\<rparr>))"
        using len 1(3) by simp
      note IH = 1(1)[OF True e_def g(1) fv sc 1(2) bl]
      have tk: "take e d = take offset (t_data buffer) @ t_data g"
        using g fit 1(3) by (simp add: d_def e_def)
      have drp: "\<And>n. drop (e + n) d = drop (e + n) (t_data buffer)"
        using g fit 1(3) by (simp add: d_def e_def add.commute)
      have step: "pack_loop buffer_size params i offset buffer =
         pack_loop buffer_size params (Suc i) e (buffer\<lparr>t_data := d\<rparr>)"
        by (subst pack_loop.simps) (simp add: True g fv sc[unfolded e_def] Let_def e_def)
      have gd: "gdata (params ! i) = t_data g" using g by (simp add: gdata_def)
      show ?thesis
        unfolding step IH bk
        by (simp add: Let_def dr tk drp gd fl) (simp add: e_def add.assoc)
    qed
  qed
qed


lemma fill_grad_numel [simp]: "p_numel (fill_grad p) = p_numel p"
  by (simp add: fill_grad_def split: option.splits)

lemma fill_grad_ok: "grad_shape_ok p \<Longrightarrow> grad_ok (fill_grad p)"
  by (auto simp: fill_grad_def grad_shape_ok_def grad_ok_def zeros_like_def split: option.splits)

lemma list_all_fill_grad: "list_all grad_shape_ok ps \<Longrightarrow> list_all grad_ok (map fill_grad ps)"
  by (induction ps) (auto simp: fill_grad_ok)

lemma map_numel_fill [simp]: "map p_numel (map fill_grad ps) = map p_numel ps"
  by (induction ps) auto

lemma map_numel_fill_comp [simp]: "map (p_numel \<circ> fill_grad) ps = map p_numel ps"
  by (induction ps) auto

lemma bucket_len_fits:
  "j < bucket_len C ns off \<Longrightarrow> off + sum_list (take j ns) + ns ! j < C"
proof (induction ns arbitrary: off j)
  case Nil
  then show ?case by simp
next
  case (Cons n ns)
  from Cons.prems have fit: "off + n < C" by (auto split: if_splits)
  show ?case
  proof (cases j)
    case 0
    with fit show ?thesis by simp
  next
    case (Suc j')
    with Cons.prems fit have "j' < bucket_len C ns (off + n)" by simp
    from Cons.IH[OF this] Suc show ?thesis by (simp add: add.assoc)
  qed
qed

lemma bucket_len_stop:
  "bucket_len C ns off < length ns \<Longrightarrow>
   \<not> off + sum_list (take (bucket_len C ns off) ns) + ns ! (bucket_len C ns off) < C"
proof (induction ns arbitrary: off)
  case Nil
  then show ?case by simp
next
  case (Cons n ns)
  show ?case
  proof (cases "off + n < C")
    case True
    with Cons.prems have "bucket_len C ns (off + n) < length ns" by simp
    from Cons.IH[OF this] True show ?thesis by (simp add: add.assoc)
  next
    case False
    then show ?thesis by simp
  qed
qed

lemma bucket_len_offset:
  "off \<le> C \<Longrightarrow> off + sum_list (take (bucket_len C ns off) ns) \<le> C"
proof (cases "bucket_len C ns off")
  case 0
  then show "off \<le> C \<Longrightarrow> ?thesis" by simp
next
  case (Suc k)
  then have "k < bucket_len C ns off" by simp
  from bucket_len_fits[OF this] bucket_len_le[of C ns off] Suc
  show ?thesis by (simp add: take_Suc_conv_app_nth)
qed

lemma grad_flat_fill [simp]: "grad_flat (fill_grad p) = grad_flat p"
  by (simp add: grad_flat_def fill_grad_def split: option.splits)

lemma list_all_grad_flat_fill [simp]:
  "list_all grad_flat (map fill_grad ps) = list_all grad_flat ps"
  by (induction ps) simp_all

text \<open>
  Claim C2. For a rank's parameter list (gradients in the shape of their parameters, empty
  slots filled as the dispatch does first) and a buffer that holds at least
  \<open>buffer_size\<close> elements, the packing loop started at index 0 and offset 0 has a prefix
  length \<open>k\<close> and a final offset, fixed by the element counts alone, such that: the
  offset is the sum of the element counts of the first \<open>k\<close> parameters; each of them
  passed the test \<open>offset + numel < buffer_size\<close> at its turn, so each copy ends inside
  the buffer; the loop stops at the first parameter failing the test, if there is one;
  the final offset does not exceed the capacity. When the gradients of these \<open>k\<close>
  parameters can all be flattened, the loop returns \<open>k\<close> and this offset, the buffer
  holds the \<open>k\<close> gradients in order, nothing after the final offset was written, and the
  buffer keeps its size. Otherwise \<open>view(-1)\<close> raises at the first gradient that cannot
  be flattened, before its copy, and that is the only way for the loop to fail.
\<close>

theorem pack_loop_capacity:
  assumes shapes: "list_all grad_shape_ok params"
      and cap: "buffer_size \<le> length (t_data buffer)"
  shows "\<exists>k offset.
      k \<le> length params
    \<and> offset = sum_list (map p_numel (take k params))
    \<and> (\<forall>j<k. sum_list (map p_numel (take j params)) + p_numel (params ! j) < buffer_size)
    \<and> (k < length params \<longrightarrow> \<not> offset + p_numel (params ! k) < buffer_size)
    \<and> offset \<le> buffer_size
    \<and> offset \<le> length (t_data buffer)
    \<and> (if list_all grad_flat (take k params)
       then \<exists>buffer'.
              pack_loop buffer_size (map fill_grad params) 0 0 buffer = Inr (k, offset, buffer')
            \<and> t_data buffer' =
                concat (map gdata (take k (map fill_grad params))) @ drop offset (t_data buffer)
            \<and> length (t_data buffer') = length (t_data buffer)
       else pack_loop buffer_size (map fill_grad params) 0 0 buffer = Inl ViewError)"
proof -
  define ns where "ns = map p_numel params"
  define k where "k = bucket_len buffer_size ns 0"
  define ps where "ps = take k (map fill_grad params)"
  have kle: "k \<le> length params"
    using bucket_len_le[of buffer_size ns 0] by (simp add: k_def ns_def)
  have map_ps: "map p_numel ps = take k ns"
    by (simp add: ps_def ns_def take_map[symmetric] del: map_map)
  have sum_eq: "sum_list (map p_numel ps) = sum_list (take k ns)"
    by (simp only: map_ps)
  have flat_ps: "list_all grad_flat ps = list_all grad_flat (take k params)"
    by (simp add: ps_def take_map)
  have run: "pack_loop buffer_size (map fill_grad params) 0 0 buffer =
      (if list_all grad_flat (take k params)
       then Inr (k, sum_list (take k ns),
           buffer\<lparr>t_data := concat (map gdata ps) @ drop (sum_list (take k ns)) (t_data buffer)\<rparr>)
       else Inl ViewError)"
    using pack_loop_eq[OF list_all_fill_grad[OF shapes] cap, of 0 0]
    unfolding Let_def
    by (simp add: k_def[symmetric] ns_def[symmetric] ps_def[symmetric] sum_eq flat_ps
        del: list_all_grad_flat_fill)
  have off_le: "sum_list (take k ns) \<le> buffer_size"
    using bucket_len_offset[of 0 buffer_size ns] by (simp add: k_def)
  have fits: "\<forall>j<k. sum_list (take j ns) + ns ! j < buffer_size"
    using bucket_len_fits[of _ buffer_size ns 0] by (simp add: k_def)
  have stop: "k < length params \<longrightarrow> \<not> sum_list (take k ns) + ns ! k < buffer_size"
    using bucket_len_stop[of buffer_size ns 0] by (simp add: k_def ns_def)
  have oks: "list_all grad_ok ps"
  proof -
    have "set ps \<subseteq> set (map fill_grad params)"
      unfolding ps_def by (rule set_take_subset)
    with list_all_fill_grad[OF shapes] show ?thesis
      unfolding list_all_iff by blast
  qed
  have lens: "length (concat (map gdata ps)) = sum_list (map p_numel ps)"
    using oks by (induction ps) (auto simp: gdata_def grad_ok_def split: option.splits)
  have nth_ns: "\<And>j. j < length params \<Longrightarrow> ns ! j = p_numel (params ! j)"
    by (simp add: ns_def)
  have take_ns: "\<And>j. take j ns = map p_numel (take j params)"
    by (simp add: ns_def take_map)
  have res: "if list_all grad_flat (take k params)
       then \<exists>buffer'.
              pack_loop buffer_size (map fill_grad params) 0 0 buffer
                = Inr (k, sum_list (take k ns), buffer')
            \<and> t_data buffer' =
                concat (map gdata (take k (map fill_grad params)))
                  @ drop (sum_list (take k ns)) (t_data buffer)
            \<and> length (t_data buffer') = length (t_data buffer)
       else pack_loop buffer_size (map fill_grad params) 0 0 buffer = Inl ViewError"
  proof (cases "list_all grad_flat (take k params)")
    case True
    have "length (concat (map gdata ps) @ drop (sum_list (take k ns)) (t_data buffer))
        = length (t_data buffer)"
      using lens off_le cap by (simp add: sum_eq)
    with True run show ?thesis by (simp add: ps_def)
  next
    case False
    with run show ?thesis by simp
  qed
  show ?thesis
    apply (rule exI[of _ k])
    apply (rule exI[of _ "sum_list (take k ns)"])
    apply (intro conjI)
          apply (rule kle)
         apply (simp add: take_ns)
    using fits kle apply (simp add: take_ns nth_ns)
    using stop apply (simp add: nth_ns)
      apply (rule off_le)
    using off_le cap apply simp
    using res apply (simp only: take_ns)
    done
qed

theorem pack_loop_capacity_witness:
  "list_all grad_shape_ok
     [\<lparr>p_numel = 1, p_dtype = float32,
        grad = Some \<lparr>t_dtype = float32, t_data = [3], requires_grad = False, t_layout = Contiguous\<rparr>, p_layout = Contiguous\<rparr>,
      \<lparr>p_numel = 2, p_dtype = float32, grad = None, p_layout = Permuted\<rparr>,
      \<lparr>p_numel = 5, p_dtype = float32, grad = None, p_layout = Contiguous\<rparr>]
   \<and> (4::nat) \<le> length (t_data \<lparr>t_dtype = float32, t_data = [7, 7, 7, 7], requires_grad = False, t_layout = Contiguous\<rparr>)
   \<and> (\<exists>k offset.
        k = 2 \<and> offset = 3
      \<and> pack_loop 4
          (map fill_grad
            [\<lparr>p_numel = 1, p_dtype = float32,
               grad = Some \<lparr>t_dtype = float32, t_data = [3], requires_grad = False, t_layout = Contiguous\<rparr>, p_layout = Contiguous\<rparr>,
             \<lparr>p_numel = 2, p_dtype = float32, grad = None, p_layout = Permuted\<rparr>,
             \<lparr>p_numel = 5, p_dtype = float32, grad = None, p_layout = Contiguous\<rparr>])
          0 0 \<lparr>t_dtype = float32, t_data = [7, 7, 7, 7], requires_grad = False, t_layout = Contiguous\<rparr>
        = Inl ViewError)
   \<and> (\<exists>buffer'.
        pack_loop 4
          (map fill_grad
            [\<lparr>p_numel = 1, p_dtype = float32,
               grad = Some \<lparr>t_dtype = float32, t_data = [3], requires_grad = False, t_layout = Contiguous\<rparr>, p_layout = Contiguous\<rparr>,
             \<lparr>p_numel = 2, p_dtype = float32, grad = None, p_layout = Gapped\<rparr>,
             \<lparr>p_numel = 5, p_dtype = float32, grad = None, p_layout = Contiguous\<rparr>])
          0 0 \<lparr>t_dtype = float32, t_data = [7, 7, 7, 7], requires_grad = False, t_layout = Contiguous\<rparr>
        = Inr (2, 3, buffer') \<and> t_data buffer' = [3, 0, 0, 7])"
proof -
  have h1: "list_all grad_shape_ok
     [\<lparr>p_numel = 1, p_dtype = float32,
        grad = Some \<lparr>t_dtype = float32, t_data = [3], requires_grad = False, t_layout = Contiguous\<rparr>, p_layout = Contiguous\<rparr>,
      \<lparr>p_numel = 2, p_dtype = float32, grad = None, p_layout = Permuted\<rparr>,
      \<lparr>p_numel = 5, p_dtype = float32, grad = None, p_layout = Contiguous\<rparr>]"
    by (simp add: grad_shape_ok_def)
  have h2: "(4::nat) \<le> length (t_data \<lparr>t_dtype = float32, t_data = [7, 7, 7, 7], requires_grad = False, t_layout = Contiguous\<rparr>)"
    by simp
  from pack_loop_capacity[OF h1 h2] h1 h2 show ?thesis
    by (simp add: pack_loop.simps fill_grad_def zeros_like_def zeros_like_layout_def
        flat_view_def slice_copy_def tensor_copy_def py_slice_def eval_nat_numeral)
qed

section \<open>Construction\<close>

lemmas example_defs = example_md_def example_base_def example_sharded_def example_params_def
  mk_param_def mk_buffer_def two_devices_def two_devices_base_def two_devices_md_def

lemmas task_defs = dispatch_grads_def reduce_grads_task_def issue_phase_def complete_phase_def
  issue_rank_def pack_loop.simps unpack_loop.simps fill_grad_def zeros_like_def div_tensor_def
  slice_copy_def tensor_copy_def py_slice_def view_as_def flat_view_def zeros_like_layout_def

lemma alloc_buffers_Inr:
  "alloc_buffers buffer_size sharded = Inr bufs \<Longrightarrow>
   bufs = map (\<lambda>(device, per_device).
            (device, replicate (length per_device) (fresh_buffer buffer_size per_device))) sharded
   \<and> (sharded \<noteq> [] \<longrightarrow> 0 \<le> buffer_size)"
proof (induction sharded arbitrary: bufs)
  case Nil
  then show ?case by simp
next
  case (Cons a sharded)
  obtain device per_device where a: "a = (device, per_device)" by (cases a)
  from Cons.prems a obtain params0 rest0 where pd: "per_device = params0 # rest0"
    by (cases per_device) auto
  from Cons.prems a pd obtain p0 ps0 where p0: "params0 = p0 # ps0"
    by (cases params0) auto
  from Cons.prems a pd p0 obtain z where z: "zeros buffer_size (p_dtype p0) = Inr z"
    by (cases "zeros buffer_size (p_dtype p0)") auto
  from Cons.prems a pd p0 z obtain bufs' where
    b': "alloc_buffers buffer_size sharded = Inr bufs'"
    and bufs: "bufs = (device, replicate (length per_device) z) # bufs'"
    by (cases "alloc_buffers buffer_size sharded") auto
  from z have nn: "0 \<le> buffer_size" and zf: "z = fresh_buffer buffer_size per_device"
    by (auto simp: zeros_def fresh_buffer_def pd p0 split: if_splits)
  from Cons.IH[OF b'] bufs a nn zf show ?case by simp
qed

lemma alloc_buffers_ok:
  assumes "\<forall>(device, per_device) \<in> set sharded. per_device \<noteq> [] \<and> hd per_device \<noteq> []"
      and "0 \<le> buffer_size"
  shows "\<exists>bufs. alloc_buffers buffer_size sharded = Inr bufs"
  using assms
proof (induction sharded)
  case Nil
  then show ?case by simp
next
  case (Cons a sharded)
  obtain device per_device where a: "a = (device, per_device)" by (cases a)
  from Cons.prems a obtain params0 rest0 where pd: "per_device = params0 # rest0"
    by (cases per_device) auto
  from Cons.prems a pd obtain p0 ps0 where p0: "params0 = p0 # ps0"
    by (cases params0) auto
  from Cons.prems have "\<exists>bufs. alloc_buffers buffer_size sharded = Inr bufs"
    by (intro Cons.IH) auto
  then obtain bufs where "alloc_buffers buffer_size sharded = Inr bufs" ..
  with a pd p0 Cons.prems(2) show ?case by (simp add: zeros_def Let_def)
qed

lemma init_Inr:
  assumes "init base_params sharded rank world_size buffer_size = Inr md"
  shows "reduce_buffers md =
      map (\<lambda>(device, per_device).
             (device, replicate (length per_device)
                (fresh_buffer (min buffer_size (int (sum_list (map p_numel base_params))))
                   per_device))) sharded
    \<and> (sharded \<noteq> [] \<longrightarrow> 0 \<le> min buffer_size (int (sum_list (map p_numel base_params))))
    \<and> per_device_params md = sharded \<and> md_rank md = rank \<and> md_world_size md = world_size"
proof -
  define bs where "bs = min buffer_size (int (sum_list (map p_numel base_params)))"
  from assms obtain rb where rb: "alloc_buffers bs sharded = Inr rb"
    and md: "md = \<lparr>base_model = base_params, per_device_params = sharded, md_rank = rank,
               md_world_size = world_size, reduce_buffers = rb\<rparr>"
    by (auto simp: init_def Let_def bs_def split: sum.splits)
  from alloc_buffers_Inr[OF rb] md show ?thesis
    by (simp add: bs_def)
qed

text \<open>
  Claim C4, as stated, fails: with two devices holding 3 and 7 elements and the default
  ceiling, every buffer of both devices has 10 elements, the element count of the whole
  model, not \<open>min(ceiling, 3)\<close> and \<open>min(ceiling, 7)\<close>.
\<close>

theorem init_capacity_per_device_counterexample:
  "map_sum id (map (map (length \<circ> t_data) \<circ> snd) \<circ> reduce_buffers)
     (init two_devices_base two_devices 0 2 524288) = Inr [[10, 10], [10, 10]]
   \<and> map (device_numel \<circ> snd) two_devices = [3, 7]
   \<and> min (524288::int) 3 \<noteq> 10"
  by (simp add: init_def zeros_def Let_def example_defs device_numel_def)

text \<open>
  Claim C4, amended. Every buffer \<open>__init__\<close> allocates, for any device and rank, has
  capacity \<open>min(buffer_size, total element count of base_model.parameters())\<close>: the
  total is taken over the whole wrapped model, not over the device.
\<close>

theorem init_buffer_capacity:
  assumes "init base_params sharded rank world_size buffer_size = Inr md"
      and "(device, bufs) \<in> set (reduce_buffers md)"
      and "b \<in> set bufs"
  shows "int (length (t_data b)) = min buffer_size (int (sum_list (map p_numel base_params)))"
proof -
  define bs where "bs = min buffer_size (int (sum_list (map p_numel base_params)))"
  from init_Inr[OF assms(1)] have
    rbe: "reduce_buffers md = map (\<lambda>(device, per_device).
            (device, replicate (length per_device) (fresh_buffer bs per_device))) sharded"
    and nn: "sharded \<noteq> [] \<longrightarrow> 0 \<le> bs"
    by (simp_all add: bs_def)
  from assms(2) rbe have ne: "sharded \<noteq> []" by auto
  from assms(2,3) rbe obtain per_device where "b = fresh_buffer bs per_device"
    by auto
  with nn ne show ?thesis by (simp add: fresh_buffer_def bs_def)
qed

theorem init_buffer_capacity_witness:
  "init two_devices_base two_devices 0 2 524288 = Inr two_devices_md
   \<and> (''cuda:0'', [mk_buffer float32 (replicate 10 0), mk_buffer float32 (replicate 10 0)])
        \<in> set (reduce_buffers two_devices_md)
   \<and> mk_buffer float32 (replicate 10 0)
        \<in> set [mk_buffer float32 (replicate 10 0), mk_buffer float32 (replicate 10 0)]
   \<and> int (length (t_data (mk_buffer float32 (replicate 10 0))))
        = min 524288 (int (sum_list (map p_numel two_devices_base)))"
proof -
  have h1: "init two_devices_base two_devices 0 2 524288 = Inr two_devices_md"
    by (simp add: init_def zeros_def Let_def example_defs)
  have h2: "(''cuda:0'', [mk_buffer float32 (replicate 10 0), mk_buffer float32 (replicate 10 0)])
        \<in> set (reduce_buffers two_devices_md)"
    by (simp add: two_devices_md_def)
  have h3: "mk_buffer float32 (replicate 10 0)
        \<in> set [mk_buffer float32 (replicate 10 0), mk_buffer float32 (replicate 10 0)]"
    by simp
  from init_buffer_capacity[OF h1 h2 h3] h1 h2 h3 show ?thesis
    by simp
qed

text \<open>
  Claim C5, as stated, fails: rank 0 of the example owns parameters of dtypes float32 and
  float16 on one device, and construction returns the object.
\<close>

theorem init_mixed_dtypes_counterexample:
  "init example_base example_sharded 0 2 4 = Inr example_md
   \<and> map (map p_dtype) example_params = [[float32, float16, float32], [float32, float32]]"
  by (simp add: init_def zeros_def Let_def example_defs eval_nat_numeral)

text \<open>
  Claim C5, amended. \<open>__init__\<close> compares no dtypes. Whenever every device has a first
  parameter in the list of rank 0 and the buffer size is not negative, construction
  succeeds whatever the dtypes of the parameters are, and every buffer of a device has
  the dtype of that first parameter.
\<close>

theorem init_no_dtype_check:
  assumes "\<forall>(device, per_device) \<in> set sharded. per_device \<noteq> [] \<and> hd per_device \<noteq> []"
      and "0 \<le> buffer_size"
  shows "\<exists>md. init base_params sharded rank world_size buffer_size = Inr md
    \<and> reduce_buffers md =
        map (\<lambda>(device, per_device).
               (device, replicate (length per_device)
                  \<lparr>t_dtype = p_dtype (hd (hd per_device)),
                   t_data = replicate (nat (min buffer_size (int (sum_list (map p_numel base_params))))) 0,
                   requires_grad = False, t_layout = Contiguous\<rparr>)) sharded"
proof -
  define bs where "bs = min buffer_size (int (sum_list (map p_numel base_params)))"
  from assms(2) have "0 \<le> bs" by (simp add: bs_def)
  from alloc_buffers_ok[OF assms(1) this] obtain rb where rb: "alloc_buffers bs sharded = Inr rb" ..
  then have i: "init base_params sharded rank world_size buffer_size =
     Inr \<lparr>base_model = base_params, per_device_params = sharded, md_rank = rank,
               md_world_size = world_size, reduce_buffers = rb\<rparr>"
    by (simp add: init_def Let_def bs_def)
  from init_Inr[OF i] i show ?thesis
    by (simp add: fresh_buffer_def bs_def)
qed

theorem init_no_dtype_check_witness:
  "list_all (\<lambda>(device, per_device). per_device \<noteq> [] \<and> hd per_device \<noteq> []) example_sharded
   \<and> (0::int) \<le> 4
   \<and> init example_base example_sharded 0 2 4 = Inr example_md
   \<and> map (map t_dtype \<circ> snd) (reduce_buffers example_md) = [[float32, float32]]
   \<and> map (map p_dtype) example_params = [[float32, float16, float32], [float32, float32]]"
proof -
  have h1: "\<forall>(device, per_device) \<in> set example_sharded. per_device \<noteq> [] \<and> hd per_device \<noteq> []"
    by (simp add: example_defs)
  have h2: "(0::int) \<le> 4" by simp
  have h3: "init example_base example_sharded 0 2 4 = Inr example_md"
    by (simp add: init_def zeros_def Let_def example_defs eval_nat_numeral)
  have h4: "map (map t_dtype \<circ> snd) (reduce_buffers example_md) = [[float32, float32]]"
    by (simp add: example_md_def mk_buffer_def)
  have h5: "map (map p_dtype) example_params = [[float32, float16, float32], [float32, float32]]"
    by (simp add: example_params_def mk_param_def)
  have h1': "list_all (\<lambda>(device, per_device). per_device \<noteq> [] \<and> hd per_device \<noteq> [])
      example_sharded"
    by (simp add: example_defs)
  from init_no_dtype_check[OF h1 h2, of example_base 0 2] h1' h3 h4 h5 show ?thesis
    by simp
qed

text \<open>
  Claim C6, as stated, fails: after construction and one dispatch on rank 0 the two
  buffers hold 1 and 3 in their first element. \<open>dispatch_grads\<close> zeroes nothing, so the
  packing of the next dispatch begins on these buffers.
\<close>

theorem dispatch_leaves_buffers_nonzero_counterexample:
  "init example_base example_sharded 0 2 4 = Inr example_md
   \<and> map_sum id reduce_buffers (dispatch_grads keep_local example_md)
       = Inr [(''cuda:0'', [mk_buffer float32 [1, 0, 0, 0], mk_buffer float32 [3, 0, 0, 0]])]"
  by (simp add: init_def zeros_def Let_def example_defs eval_nat_numeral task_defs keep_local_def)

text \<open>
  Claim C6, amended. Every buffer is all zero when \<open>__init__\<close> allocates it, so the
  packing of the first dispatch after construction begins on zero buffers; the
  dispatch itself zeroes no buffer.
\<close>

theorem init_buffers_zero:
  assumes "init base_params sharded rank world_size buffer_size = Inr md"
      and "(device, bufs) \<in> set (reduce_buffers md)"
      and "b \<in> set bufs"
  shows "t_data b = replicate (length (t_data b)) 0"
proof -
  from init_Inr[OF assms(1)] assms(2,3) obtain bs per_device where "b = fresh_buffer bs per_device"
    by auto
  then show ?thesis by (simp add: fresh_buffer_def)
qed

theorem init_buffers_zero_witness:
  "init example_base example_sharded 0 2 4 = Inr example_md
   \<and> (''cuda:0'', [mk_buffer float32 [0, 0, 0, 0], mk_buffer float32 [0, 0, 0, 0]])
        \<in> set (reduce_buffers example_md)
   \<and> mk_buffer float32 [0, 0, 0, 0]
        \<in> set [mk_buffer float32 [0, 0, 0, 0], mk_buffer float32 [0, 0, 0, 0]]
   \<and> t_data (mk_buffer float32 [0, 0, 0, 0]) = [0, 0, 0, 0]"
proof -
  have h1: "init example_base example_sharded 0 2 4 = Inr example_md"
    by (simp add: init_def zeros_def Let_def example_defs eval_nat_numeral)
  have h2: "(''cuda:0'', [mk_buffer float32 [0, 0, 0, 0], mk_buffer float32 [0, 0, 0, 0]])
        \<in> set (reduce_buffers example_md)"
    by (simp add: example_md_def)
  have h3: "mk_buffer float32 [0, 0, 0, 0]
        \<in> set [mk_buffer float32 [0, 0, 0, 0], mk_buffer float32 [0, 0, 0, 0]]"
    by simp
  from init_buffers_zero[OF h1 h2 h3] h1 h2 h3 show ?thesis
    by (simp add: mk_buffer_def eval_nat_numeral)
qed

section \<open>The submission loop\<close>

lemma pack_loop_fill:
  assumes "list_all grad_shape_ok params" "buffer_size \<le> length (t_data buffer)"
  shows "pack_loop buffer_size (map fill_grad params) 0 0 buffer =
     (if prefix_flat buffer_size params
      then Inr (prefix_len buffer_size params,
          sum_list (map p_numel (take (prefix_len buffer_size params) params)),
          buffer\<lparr>t_data :=
             concat (map gdata (take (prefix_len buffer_size params) (map fill_grad params)))
             @ drop (sum_list (map p_numel (take (prefix_len buffer_size params) params)))
                 (t_data buffer)\<rparr>)
      else Inl ViewError)"
proof -
  have m: "map p_numel (take (prefix_len buffer_size params) (map fill_grad params)) =
        map p_numel (take (prefix_len buffer_size params) params)"
    by (simp add: take_map[symmetric] del: map_map)
  have f: "list_all grad_flat (take (prefix_len buffer_size params) (map fill_grad params)) =
        prefix_flat buffer_size params"
    by (simp add: prefix_flat_def take_map)
  show ?thesis
    using pack_loop_eq[OF list_all_fill_grad[OF assms(1)] assms(2), of 0 0] m f
    unfolding Let_def by (simp add: prefix_len_def del: list_all_grad_flat_fill)
qed

lemma packed_prefix_eq:
  "list_all grad_shape_ok params \<Longrightarrow> buffer_size \<le> length (t_data buffer) \<Longrightarrow>
   prefix_flat buffer_size params \<Longrightarrow>
   packed_prefix buffer_size params buffer = prefix_len buffer_size params"
  by (simp add: packed_prefix_def pack_loop_fill)

lemma prefix_len_le: "prefix_len buffer_size params \<le> length params"
  using bucket_len_le[of buffer_size "map p_numel params" 0] by (simp add: prefix_len_def)

lemma needs_grad_fill [simp]: "needs_grad (fill_grad p) = needs_grad p"
  by (simp add: needs_grad_def fill_grad_def zeros_like_def split: option.splits)

lemma reduce_direct_eq:
  assumes "list_all grad_ok ps"
  shows "reduce_direct world_size rank i ps =
     (if list_ex needs_grad ps then Inl RequiresGradError
      else Inr (map (scale_grad world_size) ps, map (GradReduce rank) [i ..< i + length ps]))"
  using assms
proof (induction ps arbitrary: i)
  case Nil
  then show ?case by simp
next
  case (Cons p ps)
  from Cons.prems obtain g where g: "grad p = Some g"
    by (auto simp: grad_ok_def split: option.splits)
  from Cons.prems have "list_all grad_ok ps" by simp
  note IH = Cons.IH[OF this, of "Suc i"]
  have up: "[i ..< i + length (p # ps)] = i # [Suc i ..< Suc i + length ps]"
    by (simp add: upt_rec)
  show ?case
    unfolding up using g
    by (simp add: IH needs_grad_def scale_grad_def)
qed

lemma issue_rank_eq:
  assumes shapes: "list_all grad_shape_ok params"
      and cap: "buffer_size \<le> length (t_data buffer)"
  shows "issue_rank world_size buffer_size rank params buffer =
     (case rank_error buffer_size params of
        Some e \<Rightarrow> Inl e
      | None \<Rightarrow> Inr (issued_params world_size buffer_size params,
                issued_buffer world_size buffer_size params buffer,
                bucket_requests_of buffer_size (rank, params),
                requests_of buffer_size (rank, params)))"
proof (cases "params = []")
  case True
  then show ?thesis
    by (simp add: issue_rank_def issued_params_def issued_buffer_def bucket_requests_of_def
        requests_of_def prefix_len_def rank_error_def prefix_flat_def)
next
  case False
  define k where "k = prefix_len buffer_size params"
  define fs where "fs = map fill_grad params"
  have kle: "k \<le> length params" unfolding k_def by (rule prefix_len_le)
  have "list_all grad_ok fs" unfolding fs_def by (rule list_all_fill_grad[OF shapes])
  then have ok: "list_all grad_ok (drop k fs)"
    unfolding list_all_iff using set_drop_subset[of k fs] by blast
  have ex: "list_ex needs_grad (drop k fs) = list_ex needs_grad (drop k params)"
    by (simp add: fs_def drop_map list_ex_iff)
  have len: "k + length (drop k fs) = length params"
    using kle by (simp add: fs_def)
  define B where "B = buffer\<lparr>t_data := concat (map gdata (take k fs))
        @ drop (sum_list (map p_numel (take k params))) (t_data buffer)\<rparr>"
  have pl: "pack_loop buffer_size (map fill_grad params) 0 0 buffer =
      (if prefix_flat buffer_size params
       then Inr (k, sum_list (map p_numel (take k params)), B) else Inl ViewError)"
    using pack_loop_fill[OF shapes cap] by (simp add: k_def fs_def B_def)
  have rd: "reduce_direct world_size rank k (drop k fs) =
     (if list_ex needs_grad (drop k params) then Inl RequiresGradError
      else Inr (map (scale_grad world_size) (drop k fs), map (GradReduce rank) [k ..< length params]))"
    by (simp only: reduce_direct_eq[OF ok] ex len)
  have lhs: "issue_rank world_size buffer_size rank params buffer =
     (if \<not> prefix_flat buffer_size params then Inl ViewError
      else if list_ex needs_grad (drop k params) then Inl RequiresGradError
      else Inr (take k fs @ map (scale_grad world_size) (drop k fs),
                if 0 < k then div_tensor B world_size else B,
                if 0 < k then [(BucketReduce rank, rank)] else [],
                map (GradReduce rank) [k ..< length params]))"
    using False by (simp add: issue_rank_def pl rd[unfolded fs_def] fs_def Let_def)
  have B0: "k = 0 \<Longrightarrow> B = buffer" by (simp add: B_def)
  show ?thesis
    unfolding lhs
    by (auto simp: issued_params_def issued_buffer_def bucket_requests_of_def requests_of_def
        rank_error_def k_def[symmetric] fs_def[symmetric] B_def[symmetric] B0)
qed

lemma first_error_None:
  "first_error C prp = None \<longleftrightarrow> (\<forall>params \<in> set prp. rank_error C params = None)"
  by (induction prp) (auto split: option.splits)

lemma rank_error_None:
  "rank_error C params = None \<longleftrightarrow>
     prefix_flat C params \<and> \<not> list_ex needs_grad (drop (prefix_len C params) params)"
  by (simp add: rank_error_def)

lemma rank_error_cases:
  "rank_error C params = Some e \<Longrightarrow> e = ViewError \<or> e = RequiresGradError"
  by (auto simp: rank_error_def split: if_splits)

lemma first_error_cases:
  "first_error C prp = Some e \<Longrightarrow> e = ViewError \<or> e = RequiresGradError"
  by (induction prp) (auto split: option.splits dest: rank_error_cases)

lemma issue_loop_eq:
  assumes "list_all (list_all grad_shape_ok) prp"
      and "list_all (\<lambda>b. buffer_size \<le> length (t_data b)) bufs"
      and "length bufs = length prp"
  shows "issue_loop world_size buffer_size r0 prp bufs =
     (case first_error buffer_size prp of
        Some e \<Rightarrow> Inl e
      | None \<Rightarrow> Inr (map (issued_params world_size buffer_size) prp,
                map2 (issued_buffer world_size buffer_size) prp bufs,
                concat (map (bucket_requests_of buffer_size) (enumerate r0 prp)),
                concat (map (requests_of buffer_size) (enumerate r0 prp))))"
  using assms
proof (induction prp arbitrary: bufs r0)
  case Nil
  then show ?case by simp
next
  case (Cons params prp)
  from Cons.prems(3) obtain b bs where bufs: "bufs = b # bs" by (cases bufs) auto
  from Cons.prems bufs have shapes: "list_all grad_shape_ok params"
    and cap: "buffer_size \<le> length (t_data b)" by simp_all
  have p1: "list_all (list_all grad_shape_ok) prp" using Cons.prems(1) by simp
  have p2: "list_all (\<lambda>b. buffer_size \<le> length (t_data b)) bs" using Cons.prems(2) bufs by simp
  have p3: "length bs = length prp" using Cons.prems(3) bufs by simp
  note IH = Cons.IH[OF p1 p2 p3, of "Suc r0"]
  note ir = issue_rank_eq[OF shapes cap, of world_size r0]
  show ?case
  proof (cases "rank_error buffer_size params")
    case (Some e)
    then show ?thesis unfolding bufs by (simp add: ir)
  next
    case None
    show ?thesis
    proof (cases "first_error buffer_size prp")
      case (Some e)
      with None show ?thesis unfolding bufs by (simp add: ir IH)
    next
      case N2: None
      with None show ?thesis unfolding bufs by (simp add: ir IH)
    qed
  qed
qed


lemma task_ok_caps:
  assumes "task_ok buffers prp"
  shows "list_all (\<lambda>b. length (t_data (hd buffers)) \<le> length (t_data b)) buffers"
proof -
  from assms have "list_all (\<lambda>b. length (t_data b) = length (t_data (hd buffers))) buffers"
    unfolding task_ok_def by blast
  then show ?thesis
    unfolding list_all_iff by simp
qed

lemma issue_phase_eq:
  assumes ok: "task_ok buffers prp"
  shows "issue_phase world_size prp buffers =
     (case first_error (length (t_data (hd buffers))) prp of
        Some e \<Rightarrow> Inl e
      | None \<Rightarrow> Inr (length (t_data (hd buffers)),
                map (issued_params world_size (length (t_data (hd buffers)))) prp,
                map2 (issued_buffer world_size (length (t_data (hd buffers)))) prp buffers,
                concat (map (bucket_requests_of (length (t_data (hd buffers)))) (enumerate 0 prp)),
                concat (map (requests_of (length (t_data (hd buffers)))) (enumerate 0 prp))))"
proof -
  from ok have ne: "buffers \<noteq> []" unfolding task_ok_def by blast
  then obtain b0 bs where b: "buffers = b0 # bs" by (cases buffers) auto
  from ok have sh: "list_all (list_all grad_shape_ok) prp" and len: "length buffers = length prp"
    unfolding task_ok_def by blast+
  define C where "C = length (t_data (hd buffers))"
  have C0: "length (t_data b0) = C" by (simp add: C_def b)
  note il = issue_loop_eq[OF sh task_ok_caps[OF ok] len, of world_size 0, folded C_def]
  have "issue_phase world_size prp buffers =
      (case issue_loop world_size C 0 prp buffers of
             Inl e \<Rightarrow> Inl e
           | Inr (per_rank_params', buffers', bucket_requests, requests) \<Rightarrow>
               Inr (C, per_rank_params', buffers', bucket_requests, requests))"
    unfolding issue_phase_def b list.case Let_def C0 ..
  also have "\<dots> = (case first_error C prp of
        Some e \<Rightarrow> Inl e
      | None \<Rightarrow> Inr (C, map (issued_params world_size C) prp,
                map2 (issued_buffer world_size C) prp buffers,
                concat (map (bucket_requests_of C) (enumerate 0 prp)),
                concat (map (requests_of C) (enumerate 0 prp))))"
    unfolding il by (simp split: option.splits)
  finally show ?thesis unfolding C_def .
qed


lemma set_gdata_numel [simp]: "p_numel (set_gdata p xs) = p_numel p"
  by (simp add: set_gdata_def)

lemma unpacked_length [simp]: "length (unpacked C ps off d) = length ps"
  by (induction ps arbitrary: off) auto

lemma unpack_loop_eq:
  assumes "list_all grad_ok params" "buffer_size \<le> length (t_data buffer)"
  shows "unpack_loop buffer_size params i offset buffer =
     Inr (take i params @ unpacked buffer_size (drop i params) offset (t_data buffer))"
  using assms
proof (induction buffer_size params i offset buffer rule: unpack_loop.induct)
  case (1 buffer_size params i offset buffer)
  show ?case
  proof (cases "i < length params \<and> offset + p_numel (params ! i) < buffer_size")
    case False
    have "unpacked buffer_size (drop i params) offset (t_data buffer) = drop i params"
    proof (cases "i < length params")
      case True
      then have "drop i params = params ! i # drop (Suc i) params"
        by (simp add: Cons_nth_drop_Suc)
      with False True show ?thesis by simp
    next
      case False
      then show ?thesis by simp
    qed
    moreover have "unpack_loop buffer_size params i offset buffer = Inr params"
      using False by (subst unpack_loop.simps) auto
    ultimately show ?thesis by simp
  next
    case True
    then have il: "i < length params" and fit: "offset + p_numel (params ! i) < buffer_size"
      by auto
    have dr: "drop i params = params ! i # drop (Suc i) params"
      using il by (simp add: Cons_nth_drop_Suc)
    from 1(2) il have "grad_ok (params ! i)" by (simp add: list_all_length)
    then obtain g where g: "grad (params ! i) = Some g" "length (t_data g) = p_numel (params ! i)"
      by (auto simp: grad_ok_def split: option.splits)
    define e where "e = offset + p_numel (params ! i)"
    define v where "v = py_slice (t_data buffer) offset e"
    have lv: "length v = p_numel (params ! i)"
      using fit 1(3) by (simp add: v_def e_def py_slice_def)
    have va: "view_as (py_slice (t_data buffer) offset e) (p_numel (params ! i)) = Inr v"
      using lv by (simp add: view_as_def v_def)
    have tc: "tensor_copy (t_data g) v = Inr v"
      using lv g by (simp add: tensor_copy_def)
    define p' where "p' = (params ! i)\<lparr>grad := Some (g\<lparr>t_data := v\<rparr>)\<rparr>"
    have p'_eq: "p' = set_gdata (params ! i) v"
      by (simp add: p'_def set_gdata_def g)
    have ok': "list_all grad_ok (params[i := p'])"
    proof -
      have "grad_ok p'" by (simp add: p'_def grad_ok_def lv)
      with 1(2) show ?thesis
        unfolding list_all_iff using set_update_subset_insert[of params i p'] by auto
    qed
    note IH = 1(1)[OF True e_def g(1) va tc ok'[unfolded p'_def] 1(3)]
    have step: "unpack_loop buffer_size params i offset buffer =
        unpack_loop buffer_size (params[i := p']) (Suc i) e buffer"
      by (subst unpack_loop.simps) (simp add: True g va[unfolded e_def] tc Let_def e_def p'_def)
    have tk: "take (Suc i) (params[i := p']) = take i params @ [p']"
      using il by (simp add: take_Suc_conv_app_nth)
    have drp: "drop (Suc i) (params[i := p']) = drop (Suc i) params"
      by simp
    have un: "unpacked buffer_size (drop i params) offset (t_data buffer) =
        p' # unpacked buffer_size (drop (Suc i) params) e (t_data buffer)"
      using fit by (simp add: dr p'_eq v_def e_def)
    show ?thesis
      unfolding step IH[folded p'_def] tk drp un by simp
  qed
qed

section \<open>The completion loops\<close>

lemma complete_request_grad:
  "complete_request recv (GradReduce r j) (prp, bufs) =
     (prp[r := (prp ! r)[j := recv_grad recv r j (prp ! r ! j)]], bufs)"
proof -
  have "(prp ! r ! j)\<lparr>grad := map_option (\<lambda>g. g\<lparr>t_data := recv (GradReduce r j) (t_data g)\<rparr>)
          (grad (prp ! r ! j))\<rparr> = recv_grad recv r j (prp ! r ! j)"
    by (cases "grad (prp ! r ! j)") (simp_all add: recv_grad_def set_gdata_def gdata_def)
  then show ?thesis by simp
qed

lemma nested_update_nth:
  assumes "r < length prp" "j < length (prp ! r)"
  shows "prp[r0 := (prp ! r0)[j0 := X]] ! r ! j = (if r = r0 \<and> j = j0 then X else prp ! r ! j)"
  using assms by (cases "r = r0") (auto simp: nth_list_update)

lemma nested_update_length:
  assumes "r < length prp"
  shows "length (prp[r0 := (prp ! r0)[j0 := X]] ! r) = length (prp ! r)"
  using assms by (cases "r = r0") auto

lemma wait_requests_grads:
  assumes "distinct reqs" "\<forall>q\<in>set reqs. \<exists>r j. q = GradReduce r j"
  shows "\<exists>prp'. wait_requests recv reqs (prp, bufs) = (prp', bufs)
     \<and> length prp' = length prp
     \<and> (\<forall>r<length prp. length (prp' ! r) = length (prp ! r)
          \<and> (\<forall>j<length (prp ! r). prp' ! r ! j =
                (if GradReduce r j \<in> set reqs then recv_grad recv r j (prp ! r ! j)
                 else prp ! r ! j)))"
  using assms
proof (induction reqs arbitrary: prp)
  case Nil
  then show ?case by simp
next
  case (Cons q qs)
  from Cons.prems obtain r0 j0 where q: "q = GradReduce r0 j0" by auto
  from Cons.prems have d: "distinct qs" and nin: "GradReduce r0 j0 \<notin> set qs"
    and all: "\<forall>q\<in>set qs. \<exists>r j. q = GradReduce r j"
    by (auto simp: q)
  define X where "X = recv_grad recv r0 j0 (prp ! r0 ! j0)"
  define prp1 where "prp1 = prp[r0 := (prp ! r0)[j0 := X]]"
  have l1: "length prp1 = length prp" by (simp add: prp1_def)
  from Cons.IH[OF d all, of prp1] obtain prp' where
    w: "wait_requests recv qs (prp1, bufs) = (prp', bufs)"
    and l': "length prp' = length prp1"
    and el: "\<forall>r<length prp1. length (prp' ! r) = length (prp1 ! r)
          \<and> (\<forall>j<length (prp1 ! r). prp' ! r ! j =
                (if GradReduce r j \<in> set qs then recv_grad recv r j (prp1 ! r ! j)
                 else prp1 ! r ! j))"
    by blast
  have step: "wait_requests recv (q # qs) (prp, bufs) = (prp', bufs)"
    by (simp add: q complete_request_grad X_def[symmetric] prp1_def[symmetric] w
        del: complete_request.simps)
  have main: "\<forall>r<length prp. length (prp' ! r) = length (prp ! r)
          \<and> (\<forall>j<length (prp ! r). prp' ! r ! j =
                (if GradReduce r j \<in> set (q # qs) then recv_grad recv r j (prp ! r ! j)
                 else prp ! r ! j))"
  proof (intro allI impI conjI)
    fix r assume r: "r < length prp"
    have lr: "length (prp1 ! r) = length (prp ! r)"
      unfolding prp1_def by (rule nested_update_length[OF r])
    from el r l1 lr show "length (prp' ! r) = length (prp ! r)" by simp
    fix j assume j: "j < length (prp ! r)"
    have n1: "prp1 ! r ! j = (if r = r0 \<and> j = j0 then X else prp ! r ! j)"
      unfolding prp1_def by (rule nested_update_nth[OF r j])
    from el r l1 lr j have e: "prp' ! r ! j =
        (if GradReduce r j \<in> set qs then recv_grad recv r j (prp1 ! r ! j) else prp1 ! r ! j)"
      by simp
    show "prp' ! r ! j =
        (if GradReduce r j \<in> set (q # qs) then recv_grad recv r j (prp ! r ! j)
         else prp ! r ! j)"
    proof (cases "r = r0 \<and> j = j0")
      case True
      with nin e n1 show ?thesis by (simp add: q X_def)
    next
      case False
      with e n1 show ?thesis by (auto simp: q)
    qed
  qed
  from step l' l1 main show ?case by simp
qed


lemma wait_buckets_eq:
  assumes "\<forall>x\<in>set breqs. fst x = BucketReduce (snd x) \<and> snd x < length prp"
      and "distinct (map snd breqs)"
      and "length bufs = length prp"
      and "self \<in> snd ` set breqs \<Longrightarrow> list_all grad_ok (prp ! self)"
      and "self \<in> snd ` set breqs \<Longrightarrow>
             buffer_size \<le> length (recv (BucketReduce self) (t_data (bufs ! self)))"
  shows "\<exists>bufs'. wait_buckets recv buffer_size self breqs (prp, bufs) =
       Inr (if self \<in> snd ` set breqs
            then prp[self := unpacked buffer_size (prp ! self) 0
                               (recv (BucketReduce self) (t_data (bufs ! self)))]
            else prp, bufs')
     \<and> length bufs' = length bufs"
  using assms
proof (induction breqs arbitrary: prp bufs)
  case Nil
  then show ?case by simp
next
  case (Cons x breqs)
  obtain q r where x: "x = (q, r)" by (cases x)
  from Cons.prems(1) x have q: "q = BucketReduce r" and r: "r < length prp" by auto
  from Cons.prems(2) x have d: "distinct (map snd breqs)" and nin: "r \<notin> snd ` set breqs"
    by auto
  from Cons.prems(1) have rest: "\<forall>x\<in>set breqs. fst x = BucketReduce (snd x) \<and> snd x < length prp"
    by simp
  define bufs1 where
    "bufs1 = bufs[r := (bufs ! r)\<lparr>t_data := recv (BucketReduce r) (t_data (bufs ! r))\<rparr>]"
  have l1: "length bufs1 = length prp" using Cons.prems(3) by (simp add: bufs1_def)
  have cr: "complete_request recv q (prp, bufs) = (prp, bufs1)"
    by (simp add: q bufs1_def)
  show ?case
  proof (cases "r = self")
    case True
    have b1: "t_data (bufs1 ! self) = recv (BucketReduce self) (t_data (bufs ! self))"
      using r Cons.prems(3) True by (simp add: bufs1_def)
    have mem: "self \<in> snd ` set (x # breqs)" using True x by simp
    note ok = Cons.prems(4)[OF mem]
    have cap: "buffer_size \<le> length (t_data (bufs1 ! self))"
      using Cons.prems(5)[OF mem] b1 by simp
    define prp1 where "prp1 = prp[self := unpacked buffer_size (prp ! self) 0
                               (recv (BucketReduce self) (t_data (bufs ! self)))]"
    have up: "unpack_loop buffer_size (prp ! self) 0 0 (bufs1 ! self) =
        Inr (unpacked buffer_size (prp ! self) 0 (recv (BucketReduce self) (t_data (bufs ! self))))"
      using unpack_loop_eq[OF ok cap, of 0 0] by (simp add: b1)
    have rest1: "\<forall>x\<in>set breqs. fst x = BucketReduce (snd x) \<and> snd x < length prp1"
      using rest by (simp add: prp1_def)
    have nin': "self \<notin> snd ` set breqs" using nin True by simp
    have l1': "length bufs1 = length prp1" using l1 by (simp add: prp1_def)
    from Cons.IH[OF rest1 d l1'] nin' obtain bufs' where
      w: "wait_buckets recv buffer_size self breqs (prp1, bufs1) = Inr (prp1, bufs')"
      and lb: "length bufs' = length bufs1"
      by auto
    have step: "wait_buckets recv buffer_size self (x # breqs) (prp, bufs) =
        wait_buckets recv buffer_size self breqs (prp1, bufs1)"
      unfolding x wait_buckets.simps cr
      using True r l1 by (simp add: up prp1_def)
    from w lb mem l1 Cons.prems(3) show ?thesis
      unfolding step by (simp add: prp1_def)
  next
    case False
    have b1: "bufs1 ! self = bufs ! self"
      using False by (simp add: bufs1_def)
    have memeq: "(self \<in> snd ` set (x # breqs)) = (self \<in> snd ` set breqs)"
      using False x by auto
    have ok: "self \<in> snd ` set breqs \<Longrightarrow> list_all grad_ok (prp ! self)"
      using Cons.prems(4) memeq by simp
    have cap: "self \<in> snd ` set breqs \<Longrightarrow>
        buffer_size \<le> length (recv (BucketReduce self) (t_data (bufs1 ! self)))"
      using Cons.prems(5) memeq b1 by simp
    from Cons.IH[OF rest d l1 ok cap] obtain bufs' where
      w: "wait_buckets recv buffer_size self breqs (prp, bufs1) =
       Inr (if self \<in> snd ` set breqs
            then prp[self := unpacked buffer_size (prp ! self) 0
                               (recv (BucketReduce self) (t_data (bufs1 ! self)))]
            else prp, bufs')"
      and lb: "length bufs' = length bufs1"
      by blast
    have step: "wait_buckets recv buffer_size self (x # breqs) (prp, bufs) =
        wait_buckets recv buffer_size self breqs (prp, bufs1)"
      unfolding x wait_buckets.simps cr using False by simp
    from w lb l1 Cons.prems(3) show ?thesis
      unfolding step memeq b1 by simp
  qed
qed


lemma wait_buckets_bufs:
  assumes "wait_buckets recv buffer_size self breqs (prp, bufs) = Inr (prp', bufs')"
      and "\<forall>x\<in>set breqs. fst x = BucketReduce (snd x)"
      and "distinct (map snd breqs)"
  shows "length bufs' = length bufs
     \<and> (\<forall>r<length bufs. bufs' ! r =
           (if r \<in> snd ` set breqs
            then (bufs ! r)\<lparr>t_data := recv (BucketReduce r) (t_data (bufs ! r))\<rparr>
            else bufs ! r))"
  using assms
proof (induction breqs arbitrary: prp bufs)
  case Nil
  then show ?case by simp
next
  case (Cons x breqs)
  obtain q r where x: "x = (q, r)" by (cases x)
  from Cons.prems(2) x have q: "q = BucketReduce r" by auto
  from Cons.prems(3) x have d: "distinct (map snd breqs)" and nin: "r \<notin> snd ` set breqs"
    by auto
  from Cons.prems(2) have rest: "\<forall>x\<in>set breqs. fst x = BucketReduce (snd x)" by simp
  define bufs1 where
    "bufs1 = bufs[r := (bufs ! r)\<lparr>t_data := recv (BucketReduce r) (t_data (bufs ! r))\<rparr>]"
  have cr: "complete_request recv q (prp, bufs) = (prp, bufs1)"
    by (simp add: q bufs1_def)
  have "\<exists>prp1. wait_buckets recv buffer_size self breqs (prp1, bufs1) = Inr (prp', bufs')"
    using Cons.prems(1) unfolding x wait_buckets.simps cr
    by (auto split: if_splits sum.splits)
  then obtain prp1 where
    w: "wait_buckets recv buffer_size self breqs (prp1, bufs1) = Inr (prp', bufs')" ..
  from Cons.IH[OF w rest d] have l: "length bufs' = length bufs1"
    and v: "\<And>r'. r' < length bufs1 \<Longrightarrow> bufs' ! r' =
           (if r' \<in> snd ` set breqs
            then (bufs1 ! r')\<lparr>t_data := recv (BucketReduce r') (t_data (bufs1 ! r'))\<rparr>
            else bufs1 ! r')"
    by simp_all
  have l1: "length bufs1 = length bufs" by (simp add: bufs1_def)
  show ?case
  proof (intro conjI allI impI)
    show "length bufs' = length bufs" using l l1 by simp
    fix r' assume r': "r' < length bufs"
    show "bufs' ! r' =
           (if r' \<in> snd ` set (x # breqs)
            then (bufs ! r')\<lparr>t_data := recv (BucketReduce r') (t_data (bufs ! r'))\<rparr>
            else bufs ! r')"
    proof (cases "r' = r")
      case True
      with v[of r'] r' l1 nin show ?thesis by (simp add: x bufs1_def)
    next
      case False
      with v[of r'] r' l1 show ?thesis by (simp add: x bufs1_def)
    qed
  qed
qed

lemma bucket_requests_mem:
  "x \<in> set (concat (map (bucket_requests_of C) (enumerate r0 prp))) \<longleftrightarrow>
   (\<exists>r. x = (BucketReduce r, r) \<and> r0 \<le> r \<and> r < r0 + length prp
        \<and> 0 < prefix_len C (prp ! (r - r0)))"
proof
  assume "x \<in> set (concat (map (bucket_requests_of C) (enumerate r0 prp)))"
  then obtain rp where rp: "rp \<in> set (enumerate r0 prp)" and x: "x \<in> set (bucket_requests_of C rp)"
    by auto
  from rp have "r0 \<le> fst rp" "fst rp < length prp + r0" "prp ! (fst rp - r0) = snd rp"
    by (simp_all add: in_set_enumerate_eq)
  moreover from x have "x = (BucketReduce (fst rp), fst rp)" "0 < prefix_len C (snd rp)"
    by (auto simp: bucket_requests_of_def split: if_splits)
  ultimately show "\<exists>r. x = (BucketReduce r, r) \<and> r0 \<le> r \<and> r < r0 + length prp
        \<and> 0 < prefix_len C (prp ! (r - r0))"
    by (intro exI[of _ "fst rp"]) simp
next
  assume "\<exists>r. x = (BucketReduce r, r) \<and> r0 \<le> r \<and> r < r0 + length prp
        \<and> 0 < prefix_len C (prp ! (r - r0))"
  then obtain r where r: "x = (BucketReduce r, r)" "r0 \<le> r" "r < r0 + length prp"
    "0 < prefix_len C (prp ! (r - r0))" by blast
  then have "(r, prp ! (r - r0)) \<in> set (enumerate r0 prp)"
    by (simp add: in_set_enumerate_eq)
  moreover have "x \<in> set (bucket_requests_of C (r, prp ! (r - r0)))"
    using r by (simp add: bucket_requests_of_def)
  ultimately show "x \<in> set (concat (map (bucket_requests_of C) (enumerate r0 prp)))"
    by auto
qed

lemma requests_mem:
  "q \<in> set (concat (map (requests_of C) (enumerate r0 prp))) \<longleftrightarrow>
   (\<exists>r j. q = GradReduce r j \<and> r0 \<le> r \<and> r < r0 + length prp
        \<and> prefix_len C (prp ! (r - r0)) \<le> j \<and> j < length (prp ! (r - r0)))"
proof
  assume "q \<in> set (concat (map (requests_of C) (enumerate r0 prp)))"
  then obtain rp where rp: "rp \<in> set (enumerate r0 prp)" and x: "q \<in> set (requests_of C rp)"
    by auto
  from rp have "r0 \<le> fst rp" "fst rp < length prp + r0" "prp ! (fst rp - r0) = snd rp"
    by (simp_all add: in_set_enumerate_eq)
  moreover from x obtain j where "q = GradReduce (fst rp) j" "prefix_len C (snd rp) \<le> j"
    "j < length (snd rp)"
    by (auto simp: requests_of_def)
  ultimately show "\<exists>r j. q = GradReduce r j \<and> r0 \<le> r \<and> r < r0 + length prp
        \<and> prefix_len C (prp ! (r - r0)) \<le> j \<and> j < length (prp ! (r - r0))"
    by (intro exI[of _ "fst rp"] exI[of _ j]) simp
next
  assume "\<exists>r j. q = GradReduce r j \<and> r0 \<le> r \<and> r < r0 + length prp
        \<and> prefix_len C (prp ! (r - r0)) \<le> j \<and> j < length (prp ! (r - r0))"
  then obtain r j where r: "q = GradReduce r j" "r0 \<le> r" "r < r0 + length prp"
    "prefix_len C (prp ! (r - r0)) \<le> j" "j < length (prp ! (r - r0))" by blast
  then have "(r, prp ! (r - r0)) \<in> set (enumerate r0 prp)"
    by (simp add: in_set_enumerate_eq)
  moreover have "q \<in> set (requests_of C (r, prp ! (r - r0)))"
    using r by (simp add: requests_of_def)
  ultimately show "q \<in> set (concat (map (requests_of C) (enumerate r0 prp)))"
    by auto
qed

lemma bucket_requests_distinct:
  "distinct (map snd (concat (map (bucket_requests_of C) (enumerate r0 prp))))"
proof (induction prp arbitrary: r0)
  case Nil
  then show ?case by simp
next
  case (Cons params prp)
  have "r0 \<notin> snd ` set (concat (map (bucket_requests_of C) (enumerate (Suc r0) prp)))"
  proof
    assume "r0 \<in> snd ` set (concat (map (bucket_requests_of C) (enumerate (Suc r0) prp)))"
    then obtain x where "x \<in> set (concat (map (bucket_requests_of C) (enumerate (Suc r0) prp)))"
      "snd x = r0" by auto
    then show False unfolding bucket_requests_mem by auto
  qed
  with Cons.IH[of "Suc r0"] show ?case
    by (auto simp: bucket_requests_of_def)
qed

lemma requests_distinct:
  "distinct (concat (map (requests_of C) (enumerate r0 prp)))"
proof (induction prp arbitrary: r0)
  case Nil
  then show ?case by simp
next
  case (Cons params prp)
  have d1: "distinct (requests_of C (r0, params))"
    by (simp add: requests_of_def distinct_map inj_on_def)
  have dj: "set (requests_of C (r0, params))
      \<inter> set (concat (map (requests_of C) (enumerate (Suc r0) prp))) = {}"
  proof (rule ccontr)
    assume "\<not> ?thesis"
    then obtain q where q1: "q \<in> set (requests_of C (r0, params))"
      and q2: "q \<in> set (concat (map (requests_of C) (enumerate (Suc r0) prp)))" by blast
    from q1 obtain j where "q = GradReduce r0 j" by (auto simp: requests_of_def)
    with q2 show False unfolding requests_mem by auto
  qed
  from d1 dj Cons.IH[of "Suc r0"] show ?case by simp
qed

section \<open>The result of \<open>_reduce_grads_task\<close>\<close>

lemma issued_params_length [simp]:
  "length (issued_params world_size C params) = length params"
  using prefix_len_le[of C params] by (simp add: issued_params_def)

lemma scale_grad_numel [simp]: "p_numel (scale_grad world_size p) = p_numel p"
  by (simp add: scale_grad_def)

lemma issued_params_nth:
  assumes "j < length params"
  shows "issued_params world_size C params ! j =
     (if j < prefix_len C params then fill_grad (params ! j)
      else scale_grad world_size (fill_grad (params ! j)))"
  using assms prefix_len_le[of C params]
  by (simp add: issued_params_def nth_append)

lemma issued_params_numel [simp]:
  "map p_numel (issued_params world_size C params) = map p_numel params"
proof (rule nth_equalityI)
  show "length (map p_numel (issued_params world_size C params)) = length (map p_numel params)"
    by simp
  fix i assume "i < length (map p_numel (issued_params world_size C params))"
  then have "i < length params" by simp
  then show "map p_numel (issued_params world_size C params) ! i = map p_numel params ! i"
    by (simp add: issued_params_nth)
qed

lemma scale_grad_ok: "grad_ok p \<Longrightarrow> grad_ok (scale_grad world_size p)"
  by (auto simp: grad_ok_def scale_grad_def div_tensor_def split: option.splits)

lemma issued_params_ok:
  assumes "list_all grad_shape_ok params"
  shows "list_all grad_ok (issued_params world_size C params)"
proof -
  have "\<forall>j<length params. grad_ok (issued_params world_size C params ! j)"
  proof (intro allI impI)
    fix j assume j: "j < length params"
    with assms have "grad_shape_ok (params ! j)" by (simp add: list_all_length)
    then have "grad_ok (fill_grad (params ! j))" by (rule fill_grad_ok)
    then show "grad_ok (issued_params world_size C params ! j)"
      using j by (simp add: issued_params_nth scale_grad_ok)
  qed
  then show ?thesis by (simp add: list_all_length)
qed

lemma concat_gdata_length:
  "list_all grad_ok ps \<Longrightarrow> length (concat (map gdata ps)) = sum_list (map p_numel ps)"
  by (induction ps) (auto simp: gdata_def grad_ok_def split: option.splits)

lemma prefix_len_offset:
  "sum_list (map p_numel (take (prefix_len C params) params)) \<le> C"
  using bucket_len_offset[of 0 C "map p_numel params"]
  by (simp add: prefix_len_def take_map)

lemma issued_buffer_length:
  assumes "list_all grad_shape_ok params" "C \<le> length (t_data buffer)"
  shows "length (t_data (issued_buffer world_size C params buffer)) = length (t_data buffer)"
proof -
  define k where "k = prefix_len C params"
  have "set (take k (map fill_grad params)) \<subseteq> set (map fill_grad params)"
    by (rule set_take_subset)
  with list_all_fill_grad[OF assms(1)] have "list_all grad_ok (take k (map fill_grad params))"
    unfolding list_all_iff by blast
  from concat_gdata_length[OF this]
  have l: "length (concat (map gdata (take k (map fill_grad params)))) =
      sum_list (map p_numel (take k params))"
    by (simp add: take_map[symmetric] del: map_map)
  from prefix_len_offset[of C params] assms(2)
  have "sum_list (map p_numel (take k params)) \<le> length (t_data buffer)"
    by (simp add: k_def)
  with l show ?thesis
    by (simp add: issued_buffer_def div_tensor_def k_def[symmetric])
qed

lemma unpacked_nth:
  assumes "j < length ps"
  shows "unpacked C ps off d ! j =
     (if j < bucket_len C (map p_numel ps) off
      then set_gdata (ps ! j)
             (py_slice d (off + sum_list (map p_numel (take j ps)))
                (off + sum_list (map p_numel (take j ps)) + p_numel (ps ! j)))
      else ps ! j)"
  using assms
proof (induction ps arbitrary: off j)
  case Nil
  then show ?case by simp
next
  case (Cons p ps)
  show ?case
  proof (cases "off + p_numel p < C")
    case False
    then show ?thesis by simp
  next
    case True
    show ?thesis
    proof (cases j)
      case 0
      with True show ?thesis by simp
    next
      case (Suc j')
      with Cons.prems have "j' < length ps" by simp
      from Cons.IH[OF this, of "off + p_numel p"] True Suc show ?thesis
        by (simp add: add.assoc)
    qed
  qed
qed


lemma task_ok_rank_pre:
  assumes "task_ok buffers prp" "r < length prp"
  shows "list_all grad_shape_ok (prp ! r)"
    and "length (t_data (buffers ! r)) = length (t_data (hd buffers))"
proof -
  from assms(1) have len: "length buffers = length prp"
    and sh: "list_all (list_all grad_shape_ok) prp"
    and eq: "list_all (\<lambda>b. length (t_data b) = length (t_data (hd buffers))) buffers"
    unfolding task_ok_def by blast+
  from sh assms(2) show "list_all grad_shape_ok (prp ! r)" by (simp add: list_all_length)
  from eq assms(2) len show "length (t_data (buffers ! r)) = length (t_data (hd buffers))"
    by (simp add: list_all_length)
qed

lemma task_result_gen:
  assumes ok: "task_ok bufs prp"
      and capr: "self < length prp \<Longrightarrow> 0 < prefix_len C (prp ! self) \<Longrightarrow>
          C \<le> length (recv (BucketReduce self)
                  (t_data (issued_buffer world_size C (prp ! self) (bufs ! self))))"
      and good: "first_error C prp = None"
      and C: "C = length (t_data (hd bufs))"
  shows "\<exists>prp' bufs'. reduce_grads_task recv bufs prp self world_size =
        Inr (prp', bufs', concat (map (bucket_requests_of C) (enumerate 0 prp)),
             concat (map (requests_of C) (enumerate 0 prp)))
     \<and> length prp' = length prp
     \<and> (\<forall>r<length prp. length (prp' ! r) = length (prp ! r)
          \<and> (\<forall>j<length (prp ! r).
                prp' ! r ! j = final_param recv world_size C self r j (prp ! r) (bufs ! r)))"
proof -
  define prp1 where "prp1 = map (issued_params world_size C) prp"
  define bufs1 where "bufs1 = map2 (issued_buffer world_size C) prp bufs"
  define breqs where "breqs = concat (map (bucket_requests_of C) (enumerate 0 prp))"
  define reqs where "reqs = concat (map (requests_of C) (enumerate 0 prp))"
  from ok have len: "length bufs = length prp"
    and shapes: "list_all (list_all grad_shape_ok) prp"
    unfolding task_ok_def by blast+
  have caps: "\<And>r. r < length prp \<Longrightarrow> C \<le> length (t_data (bufs ! r))"
    using task_ok_caps[OF ok] len unfolding C list_all_length by simp
  have sh: "\<And>r. r < length prp \<Longrightarrow> list_all grad_shape_ok (prp ! r)"
    using shapes unfolding list_all_length by simp
  have ip: "issue_phase world_size prp bufs = Inr (C, prp1, bufs1, breqs, reqs)"
    using issue_phase_eq[OF ok, of world_size] good
    unfolding C prp1_def bufs1_def breqs_def reqs_def by simp
  have l1: "length prp1 = length prp" by (simp add: prp1_def)
  have lb1: "length bufs1 = length prp1" using len by (simp add: bufs1_def prp1_def)
  have p1: "\<And>r. r < length prp \<Longrightarrow> prp1 ! r = issued_params world_size C (prp ! r)"
    by (simp add: prp1_def)
  have b1: "\<And>r. r < length prp \<Longrightarrow> bufs1 ! r = issued_buffer world_size C (prp ! r) (bufs ! r)"
    using len by (simp add: bufs1_def)
  have bm: "\<And>x. x \<in> set breqs \<longleftrightarrow>
      (\<exists>r. x = (BucketReduce r, r) \<and> r < length prp \<and> 0 < prefix_len C (prp ! r))"
    unfolding breqs_def bucket_requests_mem by simp
  have rm: "\<And>q. q \<in> set reqs \<longleftrightarrow>
      (\<exists>r j. q = GradReduce r j \<and> r < length prp \<and> prefix_len C (prp ! r) \<le> j
         \<and> j < length (prp ! r))"
    unfolding reqs_def requests_mem by simp
  have selfmem: "self \<in> snd ` set breqs \<longleftrightarrow> self < length prp \<and> 0 < prefix_len C (prp ! self)"
  proof
    assume "self \<in> snd ` set breqs"
    then obtain x where "x \<in> set breqs" "snd x = self" by auto
    then show "self < length prp \<and> 0 < prefix_len C (prp ! self)"
      unfolding bm by auto
  next
    assume "self < length prp \<and> 0 < prefix_len C (prp ! self)"
    then have "(BucketReduce self, self) \<in> set breqs" unfolding bm by simp
    then show "self \<in> snd ` set breqs" by force
  qed
  have w1: "\<forall>x\<in>set breqs. fst x = BucketReduce (snd x) \<and> snd x < length prp1"
  proof
    fix x assume "x \<in> set breqs"
    then obtain r where "x = (BucketReduce r, r)" "r < length prp" unfolding bm by blast
    then show "fst x = BucketReduce (snd x) \<and> snd x < length prp1" by (simp add: l1)
  qed
  have w2: "distinct (map snd breqs)"
    unfolding breqs_def by (rule bucket_requests_distinct)
  have w4: "self \<in> snd ` set breqs \<Longrightarrow> list_all grad_ok (prp1 ! self)"
    unfolding selfmem using issued_params_ok[OF sh] p1 by simp
  have w5: "self \<in> snd ` set breqs \<Longrightarrow>
      C \<le> length (recv (BucketReduce self) (t_data (bufs1 ! self)))"
  proof -
    assume "self \<in> snd ` set breqs"
    then have s: "self < length prp" and k: "0 < prefix_len C (prp ! self)"
      unfolding selfmem by simp_all
    from capr[OF s k] show ?thesis unfolding b1[OF s] .
  qed
  define prp2 where "prp2 = (if self \<in> snd ` set breqs
            then prp1[self := unpacked C (prp1 ! self) 0
                               (recv (BucketReduce self) (t_data (bufs1 ! self)))]
            else prp1)"
  from wait_buckets_eq[of breqs prp1 bufs1 self C recv, OF w1 w2 lb1 w4 w5] obtain bufs2 where
    wb: "wait_buckets recv C self breqs (prp1, bufs1) = Inr (prp2, bufs2)"
    unfolding prp2_def by blast
  have l2: "length prp2 = length prp" by (simp add: prp2_def l1)
  have r1: "distinct reqs" unfolding reqs_def by (rule requests_distinct)
  have r2: "\<forall>q\<in>set reqs. \<exists>r j. q = GradReduce r j"
  proof
    fix q assume "q \<in> set reqs"
    then show "\<exists>r j. q = GradReduce r j" unfolding rm by blast
  qed
  from wait_requests_grads[OF r1 r2, of recv prp2 bufs2] obtain prp' where
    wr: "wait_requests recv reqs (prp2, bufs2) = (prp', bufs2)"
    and l': "length prp' = length prp2"
    and el: "\<forall>r<length prp2. length (prp' ! r) = length (prp2 ! r)
          \<and> (\<forall>j<length (prp2 ! r). prp' ! r ! j =
                (if GradReduce r j \<in> set reqs then recv_grad recv r j (prp2 ! r ! j)
                 else prp2 ! r ! j))"
    by blast
  have res: "reduce_grads_task recv bufs prp self world_size = Inr (prp', bufs2, breqs, reqs)"
    by (simp add: reduce_grads_task_def ip complete_phase_def wb wr)
  have lr2: "\<And>r. r < length prp \<Longrightarrow> length (prp2 ! r) = length (prp ! r)"
  proof -
    fix r assume r: "r < length prp"
    show "length (prp2 ! r) = length (prp ! r)"
      using r l1 p1[OF r] by (cases "r = self") (simp_all add: prp2_def)
  qed
  have v2: "\<And>r j. r < length prp \<Longrightarrow> j < length (prp ! r) \<Longrightarrow>
      prp2 ! r ! j =
        (if j < prefix_len C (prp ! r) \<and> r = self
         then set_gdata (fill_grad (prp ! r ! j))
             (py_slice (recv (BucketReduce r) (t_data (issued_buffer world_size C (prp ! r) (bufs ! r))))
                (sum_list (map p_numel (take j (prp ! r))))
                (sum_list (map p_numel (take j (prp ! r))) + p_numel (prp ! r ! j)))
         else issued_params world_size C (prp ! r) ! j)"
  proof -
    fix r j assume r: "r < length prp" and j: "j < length (prp ! r)"
    show "prp2 ! r ! j =
        (if j < prefix_len C (prp ! r) \<and> r = self
         then set_gdata (fill_grad (prp ! r ! j))
             (py_slice (recv (BucketReduce r) (t_data (issued_buffer world_size C (prp ! r) (bufs ! r))))
                (sum_list (map p_numel (take j (prp ! r))))
                (sum_list (map p_numel (take j (prp ! r))) + p_numel (prp ! r ! j)))
         else issued_params world_size C (prp ! r) ! j)"
    proof (cases "r = self \<and> 0 < prefix_len C (prp ! r)")
      case False
      then have "prp2 ! r = prp1 ! r"
        using r l1 by (auto simp: prp2_def selfmem)
      with False p1[OF r] show ?thesis by auto
    next
      case True
      then have mem: "self \<in> snd ` set breqs" using r by (auto simp: selfmem)
      have "prp2 ! r = unpacked C (issued_params world_size C (prp ! r)) 0
          (recv (BucketReduce r) (t_data (issued_buffer world_size C (prp ! r) (bufs ! r))))"
        using True r l1 mem p1[OF r] b1[OF r] by (simp add: prp2_def)
      moreover have jl: "j < length (issued_params world_size C (prp ! r))" using j by simp
      moreover have "map p_numel (take j (issued_params world_size C (prp ! r))) =
          map p_numel (take j (prp ! r))"
        by (simp add: take_map[symmetric] del: map_map)
      ultimately show ?thesis
        using True j unpacked_nth[OF jl, of C 0]
        by (simp add: prefix_len_def[symmetric] issued_params_nth)
    qed
  qed
  have fin: "\<forall>r<length prp. length (prp' ! r) = length (prp ! r)
          \<and> (\<forall>j<length (prp ! r).
                prp' ! r ! j = final_param recv world_size C self r j (prp ! r) (bufs ! r))"
  proof (intro allI impI conjI)
    fix r assume r: "r < length prp"
    from el r l2 lr2[OF r] show "length (prp' ! r) = length (prp ! r)" by simp
    fix j assume j: "j < length (prp ! r)"
    from el r l2 lr2[OF r] j have e: "prp' ! r ! j =
        (if GradReduce r j \<in> set reqs then recv_grad recv r j (prp2 ! r ! j) else prp2 ! r ! j)"
      by simp
    have m: "GradReduce r j \<in> set reqs \<longleftrightarrow> prefix_len C (prp ! r) \<le> j"
      unfolding rm using r j by auto
    show "prp' ! r ! j = final_param recv world_size C self r j (prp ! r) (bufs ! r)"
      unfolding e m v2[OF r j] final_param_def
      using j by (auto simp: issued_params_nth)
  qed
  from res l' l2 fin show ?thesis
    unfolding breqs_def reqs_def by auto
qed

lemma task_result:
  assumes ok: "task_ok bufs prp" and sp: "shape_preserving recv"
      and good: "first_error C prp = None"
      and C: "C = length (t_data (hd bufs))"
  shows "\<exists>prp' bufs'. reduce_grads_task recv bufs prp self world_size =
        Inr (prp', bufs', concat (map (bucket_requests_of C) (enumerate 0 prp)),
             concat (map (requests_of C) (enumerate 0 prp)))
     \<and> length prp' = length prp
     \<and> (\<forall>r<length prp. length (prp' ! r) = length (prp ! r)
          \<and> (\<forall>j<length (prp ! r).
                prp' ! r ! j = final_param recv world_size C self r j (prp ! r) (bufs ! r)))"
proof (rule task_result_gen[OF ok _ good C])
  assume s: "self < length prp"
  have "length (recv (BucketReduce self)
                  (t_data (issued_buffer world_size C (prp ! self) (bufs ! self))))
      = length (t_data (issued_buffer world_size C (prp ! self) (bufs ! self)))"
    using sp unfolding shape_preserving_def by simp
  also have "\<dots> = length (t_data (bufs ! self))"
    using task_ok_rank_pre[OF ok s] C by (intro issued_buffer_length) simp_all
  finally show "C \<le> length (recv (BucketReduce self)
                  (t_data (issued_buffer world_size C (prp ! self) (bufs ! self))))"
    using task_ok_rank_pre[OF ok s] C by simp
qed

lemma task_raises:
  assumes ok: "task_ok bufs prp"
      and bad: "first_error C prp = Some e"
      and C: "C = length (t_data (hd bufs))"
  shows "reduce_grads_task recv bufs prp self world_size = Inl e"
  using issue_phase_eq[OF ok, of world_size] bad
  unfolding C reduce_grads_task_def by simp

lemma task_bufs:
  assumes ok: "task_ok bufs prp"
      and res: "reduce_grads_task recv bufs prp self world_size = Inr (prp', bufs', breqs, reqs)"
      and C: "C = length (t_data (hd bufs))"
      and r: "r < length prp"
  shows "bufs' ! r =
     (if 0 < prefix_len C (prp ! r)
      then (issued_buffer world_size C (prp ! r) (bufs ! r))
             \<lparr>t_data := recv (BucketReduce r)
                          (t_data (issued_buffer world_size C (prp ! r) (bufs ! r)))\<rparr>
      else issued_buffer world_size C (prp ! r) (bufs ! r))"
proof -
  define prp1 where "prp1 = map (issued_params world_size C) prp"
  define bufs1 where "bufs1 = map2 (issued_buffer world_size C) prp bufs"
  define breqs0 where "breqs0 = concat (map (bucket_requests_of C) (enumerate 0 prp))"
  define reqs0 where "reqs0 = concat (map (requests_of C) (enumerate 0 prp))"
  from ok have len: "length bufs = length prp" unfolding task_ok_def by blast
  have ip: "issue_phase world_size prp bufs = Inr (C, prp1, bufs1, breqs0, reqs0)"
    using res issue_phase_eq[OF ok, of world_size]
    unfolding reduce_grads_task_def C prp1_def bufs1_def breqs0_def reqs0_def
    by (auto split: option.splits)
  from res obtain prp2 bufs2 where
    wb: "wait_buckets recv C self breqs0 (prp1, bufs1) = Inr (prp2, bufs2)"
    and wr: "wait_requests recv reqs0 (prp2, bufs2) = (prp', bufs')"
    unfolding reduce_grads_task_def ip complete_phase_def
    by (auto split: sum.splits prod.splits)
  have r1: "distinct reqs0" unfolding reqs0_def by (rule requests_distinct)
  have r2: "\<forall>q\<in>set reqs0. \<exists>r j. q = GradReduce r j"
  proof
    fix q assume "q \<in> set reqs0"
    then show "\<exists>r j. q = GradReduce r j" unfolding reqs0_def requests_mem by blast
  qed
  from wait_requests_grads[OF r1 r2, of recv prp2 bufs2] wr have b2: "bufs' = bufs2" by auto
  have w1: "\<forall>x\<in>set breqs0. fst x = BucketReduce (snd x)"
  proof
    fix x assume "x \<in> set breqs0"
    then obtain r where "x = (BucketReduce r, r)"
      unfolding breqs0_def bucket_requests_mem by blast
    then show "fst x = BucketReduce (snd x)" by simp
  qed
  have w2: "distinct (map snd breqs0)"
    unfolding breqs0_def by (rule bucket_requests_distinct)
  have lb1: "length bufs1 = length prp" using len by (simp add: bufs1_def)
  have b1: "bufs1 ! r = issued_buffer world_size C (prp ! r) (bufs ! r)"
    using len r by (simp add: bufs1_def)
  have mem: "r \<in> snd ` set breqs0 \<longleftrightarrow> 0 < prefix_len C (prp ! r)"
  proof
    assume "r \<in> snd ` set breqs0"
    then obtain x where "x \<in> set breqs0" "snd x = r" by auto
    then show "0 < prefix_len C (prp ! r)"
      unfolding breqs0_def bucket_requests_mem by auto
  next
    assume "0 < prefix_len C (prp ! r)"
    with r have "(BucketReduce r, r) \<in> set breqs0"
      unfolding breqs0_def bucket_requests_mem by simp
    then show "r \<in> snd ` set breqs0" by force
  qed
  from wait_buckets_bufs[OF wb w1 w2] r lb1 have "bufs2 ! r =
       (if r \<in> snd ` set breqs0
        then (bufs1 ! r)\<lparr>t_data := recv (BucketReduce r) (t_data (bufs1 ! r))\<rparr>
        else bufs1 ! r)"
    by simp
  then show ?thesis
    unfolding b2 b1 using mem by simp
qed

lemma prefix_flat_all:
  "list_all (prefix_flat C) prp \<Longrightarrow>
   first_error C prp = (if suffix_needs_grad C prp then Some RequiresGradError else None)"
  by (induction prp) (auto simp: suffix_needs_grad_def rank_error_def)

lemma first_error_flat:
  assumes "first_error C prp = None" "r < length prp"
  shows "prefix_flat C (prp ! r)"
  using assms unfolding first_error_None rank_error_None by simp

lemma first_error_View:
  "first_error C prp = Some ViewError \<Longrightarrow> \<not> list_all (prefix_flat C) prp"
  by (induction prp) (auto simp: rank_error_def split: option.splits if_splits)

lemma first_error_total:
  "first_error C prp \<noteq> None \<longleftrightarrow> \<not> list_all (prefix_flat C) prp \<or> suffix_needs_grad C prp"
  by (induction prp) (auto simp: suffix_needs_grad_def rank_error_def split: option.splits)

lemma count_list_distinct:
  "distinct xs \<Longrightarrow> count_list xs x = (if x \<in> set xs then 1 else 0)"
  by (induction xs) auto

lemma py_slice_map: "py_slice (map f xs) a b = map f (py_slice xs a b)"
  by (simp add: py_slice_def take_map drop_map)

lemma gdata_length: "grad_ok p \<Longrightarrow> length (gdata p) = p_numel p"
  by (auto simp: gdata_def grad_ok_def split: option.splits)

lemma py_slice_concat:
  assumes "list_all grad_ok ps" "j < length ps"
  shows "py_slice (concat (map gdata ps) @ rest) (sum_list (map p_numel (take j ps)))
           (sum_list (map p_numel (take j ps)) + p_numel (ps ! j)) = gdata (ps ! j)"
proof -
  have split: "ps = take j ps @ ps ! j # drop (Suc j) ps"
    using assms(2) by (simp add: id_take_nth_drop[symmetric])
  have ok1: "list_all grad_ok (take j ps)"
    using assms(1) set_take_subset[of j ps] unfolding list_all_iff by blast
  have okj: "grad_ok (ps ! j)" using assms by (simp add: list_all_length)
  define A where "A = concat (map gdata (take j ps))"
  define B where "B = concat (map gdata (drop (Suc j) ps)) @ rest"
  have lA: "length A = sum_list (map p_numel (take j ps))"
    unfolding A_def by (rule concat_gdata_length[OF ok1])
  have "concat (map gdata ps) = A @ gdata (ps ! j) @ concat (map gdata (drop (Suc j) ps))"
    by (subst split) (simp add: A_def)
  then have c: "concat (map gdata ps) @ rest = A @ gdata (ps ! j) @ B"
    by (simp add: B_def)
  show ?thesis
    unfolding c lA[symmetric] py_slice_def
    using gdata_length[OF okj] by simp
qed

lemma in_set_drop_nth:
  "x \<in> set (drop n xs) \<longleftrightarrow> (\<exists>i. n \<le> i \<and> i < length xs \<and> xs ! i = x)"
proof
  assume "x \<in> set (drop n xs)"
  then obtain i where "i < length (drop n xs)" "drop n xs ! i = x"
    unfolding in_set_conv_nth by blast
  then have "n \<le> n + i \<and> n + i < length xs \<and> xs ! (n + i) = x" by simp
  then show "\<exists>i. n \<le> i \<and> i < length xs \<and> xs ! i = x" by blast
next
  assume "\<exists>i. n \<le> i \<and> i < length xs \<and> xs ! i = x"
  then obtain i where i: "n \<le> i" "i < length xs" "xs ! i = x" by blast
  then have "i - n < length (drop n xs)" "drop n xs ! (i - n) = x" by simp_all
  then show "x \<in> set (drop n xs)" unfolding in_set_conv_nth by blast
qed

lemma suffix_needs_grad_iff:
  "suffix_needs_grad C prp \<longleftrightarrow>
     (\<exists>r<length prp. \<exists>j<length (prp ! r). prefix_len C (prp ! r) \<le> j \<and> needs_grad (prp ! r ! j))"
proof
  assume "suffix_needs_grad C prp"
  then obtain params p where ps: "params \<in> set prp"
    and p: "p \<in> set (drop (prefix_len C params) params)" and n: "needs_grad p"
    unfolding suffix_needs_grad_def list_ex_iff by blast
  from ps obtain r where r: "r < length prp" "prp ! r = params"
    unfolding in_set_conv_nth by blast
  from p obtain j where j: "prefix_len C params \<le> j" "j < length params" "params ! j = p"
    unfolding in_set_drop_nth by blast
  have "j < length (prp ! r) \<and> prefix_len C (prp ! r) \<le> j \<and> needs_grad (prp ! r ! j)"
    using j n r(2) by simp
  with r(1) show "\<exists>r<length prp. \<exists>j<length (prp ! r).
      prefix_len C (prp ! r) \<le> j \<and> needs_grad (prp ! r ! j)"
    by blast
next
  assume "\<exists>r<length prp. \<exists>j<length (prp ! r). prefix_len C (prp ! r) \<le> j \<and> needs_grad (prp ! r ! j)"
  then obtain r j where r: "r < length prp" and j: "j < length (prp ! r)"
    and k: "prefix_len C (prp ! r) \<le> j" and n: "needs_grad (prp ! r ! j)" by blast
  have "\<exists>i. prefix_len C (prp ! r) \<le> i \<and> i < length (prp ! r) \<and> prp ! r ! i = prp ! r ! j"
    using j k by blast
  then have m: "prp ! r ! j \<in> set (drop (prefix_len C (prp ! r)) (prp ! r))"
    unfolding in_set_drop_nth .
  have "prp ! r \<in> set prp" using r by simp
  with m n show "suffix_needs_grad C prp"
    unfolding suffix_needs_grad_def list_ex_iff by blast
qed

lemma task_ok_rank:
  assumes "task_ok buffers prp" "r < length prp"
  shows "list_all grad_shape_ok (prp ! r)"
    and "length (t_data (buffers ! r)) = length (t_data (hd buffers))"
    and "r < length buffers"
proof -
  from assms(1) have len: "length buffers = length prp"
    and sh: "list_all (list_all grad_shape_ok) prp"
    and eq: "list_all (\<lambda>b. length (t_data b) = length (t_data (hd buffers))) buffers"
    unfolding task_ok_def by blast+
  from sh assms(2) show "list_all grad_shape_ok (prp ! r)" by (simp add: list_all_length)
  from eq assms(2) len show "length (t_data (buffers ! r)) = length (t_data (hd buffers))"
    by (simp add: list_all_length)
  from assms(2) len show "r < length buffers" by simp
qed

lemma task_ok_packed_prefix:
  assumes "task_ok buffers prp" "r < length prp"
      and "prefix_flat (length (t_data (hd buffers))) (prp ! r)"
  shows "packed_prefix (length (t_data (hd buffers))) (prp ! r) (buffers ! r) =
         prefix_len (length (t_data (hd buffers))) (prp ! r)"
  using task_ok_rank[OF assms(1,2)] assms(3) by (intro packed_prefix_eq) simp_all

lemma fill_grad_idem [simp]: "fill_grad (fill_grad p) = fill_grad p"
  by (simp add: fill_grad_def split: option.splits)

lemma issue_rank_fill:
  "issue_rank world_size C rank (map fill_grad params) buffer =
   issue_rank world_size C rank params buffer"
  by (simp add: issue_rank_def Let_def comp_def)

lemma issue_loop_fill:
  assumes "length prp \<le> length bufs"
  shows "issue_loop world_size C rank (map (map fill_grad) prp) bufs =
         issue_loop world_size C rank prp bufs"
  using assms
proof (induction prp arbitrary: bufs rank)
  case Nil
  then show ?case by (cases bufs) simp_all
next
  case (Cons params prp)
  then obtain b bs where b: "bufs = b # bs" by (cases bufs) auto
  with Cons.prems have "length prp \<le> length bs" by simp
  note IH = Cons.IH[OF this, of "Suc rank"]
  show ?case
    unfolding b list.map issue_loop.simps issue_rank_fill IH ..
qed

lemma reduce_grads_task_fill:
  assumes "length prp \<le> length bufs"
  shows "reduce_grads_task recv bufs (map (map fill_grad) prp) self world_size =
         reduce_grads_task recv bufs prp self world_size"
  unfolding reduce_grads_task_def issue_phase_def issue_loop_fill[OF assms] ..

section \<open>Construction establishes the state of a call\<close>

text \<open>
  The buffers \<open>__init__\<close> allocates for a device, with the device's parameter lists, form
  a state in the sense of \<open>task_ok\<close>: one buffer per rank list, all of one size. That a
  gradient has the shape of its parameter is an invariant of PyTorch.
\<close>

lemma alloc_buffers_nonempty:
  "alloc_buffers buffer_size sharded = Inr bufs \<Longrightarrow> (device, per_device) \<in> set sharded
   \<Longrightarrow> per_device \<noteq> []"
proof (induction sharded arbitrary: bufs)
  case Nil
  then show ?case by simp
next
  case (Cons a sharded)
  obtain d pd where a: "a = (d, pd)" by (cases a)
  from Cons.prems(1) a have pd: "pd \<noteq> []" by (cases pd) auto
  from Cons.prems(1) a obtain bufs' where "alloc_buffers buffer_size sharded = Inr bufs'"
    by (auto split: list.splits sum.splits simp: Let_def)
  from Cons.IH[OF this] Cons.prems(2) a pd show ?case by auto
qed

lemma map_of_mapped:
  "map_of (map (\<lambda>(k, v). (k, f v)) xs) k = map_option f (map_of xs k)"
  by (induction xs) auto

lemma init_task_ok:
  assumes i: "init base_params sharded rank world_size buffer_size = Inr md"
      and m: "(device, per_device) \<in> set sharded"
      and d: "distinct (map fst sharded)"
      and sh: "list_all (list_all grad_shape_ok) per_device"
  shows "\<exists>buffers. map_of (reduce_buffers md) device = Some buffers \<and> task_ok buffers per_device"
proof -
  define bs where "bs = min buffer_size (int (sum_list (map p_numel base_params)))"
  from i obtain rb where rb: "alloc_buffers bs sharded = Inr rb"
    by (auto simp: init_def Let_def bs_def split: sum.splits)
  from alloc_buffers_nonempty[OF rb m] have ne: "per_device \<noteq> []" .
  from init_Inr[OF i] have
    rbe: "reduce_buffers md = map (\<lambda>(device, per_device).
            (device, replicate (length per_device) (fresh_buffer bs per_device))) sharded"
    by (simp add: bs_def)
  from d m have "map_of sharded device = Some per_device" by simp
  then have mo: "map_of (reduce_buffers md) device =
      Some (replicate (length per_device) (fresh_buffer bs per_device))"
    unfolding rbe by (simp add: map_of_mapped)
  have "task_ok (replicate (length per_device) (fresh_buffer bs per_device)) per_device"
    using ne sh unfolding task_ok_def list_all_iff by (cases per_device) auto
  with mo show ?thesis by blast
qed

section \<open>Claims on one call of \<open>_reduce_grads_task\<close>\<close>

lemmas example_task_defs = example_buffers_def example_params_def mk_param_def mk_buffer_def
  example_prefix_requires_grad_def example_suffix_requires_grad_def

lemma keep_shape: "shape_preserving keep"
  by (simp add: shape_preserving_def keep_def)

lemmas run_defs = reduce_grads_task_def issue_phase_def complete_phase_def
  issue_rank_def pack_loop.simps unpack_loop.simps fill_grad_def zeros_like_def div_tensor_def
  slice_copy_def tensor_copy_def py_slice_def view_as_def packed_prefix_def flat_view_def
  zeros_like_layout_def

lemma grad_flat_None: "grad p = None \<Longrightarrow> grad_flat p = (p_layout p \<noteq> Permuted)"
  by (cases "p_layout p")
     (simp_all add: grad_flat_def fill_grad_def zeros_like_def zeros_like_layout_def)

lemma prefix_flat_iff:
  "prefix_flat C params \<longleftrightarrow> (\<forall>j<prefix_len C params. grad_flat (params ! j))"
  using prefix_len_le[of C params]
  by (simp add: prefix_flat_def list_all_length)

lemma all_prefix_flat_iff:
  "list_all (prefix_flat C) prp \<longleftrightarrow>
     (\<forall>r<length prp. \<forall>j<prefix_len C (prp ! r). grad_flat (prp ! r ! j))"
  by (simp add: list_all_length prefix_flat_iff)

lemma not_all_prefix_flat_iff:
  "\<not> list_all (prefix_flat C) prp \<longleftrightarrow>
     (\<exists>r<length prp. \<exists>j<length (prp ! r). j < prefix_len C (prp ! r) \<and> \<not> grad_flat (prp ! r ! j))"
proof -
  have "\<And>r j. j < prefix_len C (prp ! r) \<Longrightarrow> j < length (prp ! r)"
    using prefix_len_le[of C] by (meson less_le_trans)
  then show ?thesis
    unfolding all_prefix_flat_iff by auto
qed

lemma task_outcome:
  assumes ok: "task_ok buffers prp" and sp: "shape_preserving recv"
      and C: "C = length (t_data (hd buffers))"
  shows "case first_error C prp of
           Some e \<Rightarrow> reduce_grads_task recv buffers prp self world_size = Inl e
         | None \<Rightarrow> \<exists>res. reduce_grads_task recv buffers prp self world_size = Inr res"
proof (cases "first_error C prp")
  case None
  from task_result[OF ok sp None C, of self world_size] None show ?thesis by auto
next
  case (Some e)
  from task_raises[OF ok Some C, of recv self world_size] Some show ?thesis by simp
qed

lemmas permuted_defs = permuted_state_def wide_buffers_def mk_param_def mk_buffer_def

text \<open>
  Claim C8, as stated, fails. In the state \<open>permuted_state\<close> the second parameter of rank
  0 is packed and its gradient is stored transposed; no gradient requires grad, in the
  suffix or elsewhere; the call raises all the same, from \<open>view(-1)\<close> at line 117.
\<close>

theorem view_error_counterexample:
  "task_ok wide_buffers
     (permuted_state (Some \<lparr>t_dtype = float32, t_data = [1, 2, 3, 4], requires_grad = False,
                             t_layout = Permuted\<rparr>))
   \<and> map (map needs_grad)
       (permuted_state (Some \<lparr>t_dtype = float32, t_data = [1, 2, 3, 4], requires_grad = False,
                               t_layout = Permuted\<rparr>))
       = [[False, False, False], [False, False]]
   \<and> reduce_grads_task keep wide_buffers
       (permuted_state (Some \<lparr>t_dtype = float32, t_data = [1, 2, 3, 4], requires_grad = False,
                               t_layout = Permuted\<rparr>)) 0 2
       = Inl ViewError"
  by (simp add: task_ok_def grad_shape_ok_def needs_grad_def run_defs permuted_defs keep_def
      eval_nat_numeral)

text \<open>
  Claim C8, amended. On a state the call can meet and with a transport that keeps shapes,
  the call raises if and only if some rank has, below its packed-prefix length, a
  gradient that \<open>view(-1)\<close> cannot flatten, or, at or above it, a gradient that requires
  grad. It raises nothing but these two errors; the error of \<open>view\<close> only where there is
  such a packed gradient, the error on gradients that require grad only where there is
  such a gradient in a suffix. When every gradient below the packed-prefix lengths can be
  flattened, the call raises the error on gradients that require grad if and only if some
  parameter at an index at or above the packed-prefix length of its rank has a gradient
  that requires grad, and raises no other error. A gradient of the packed prefix that
  requires grad does not make the call raise. The packed-prefix length meant here is the
  one the element counts fix: the packing loop of a rank returns it, with the gradients
  below it packed, when these can all be flattened, and raises the error of \<open>view\<close>
  otherwise.
\<close>

theorem requires_grad_error_iff:
  assumes ok: "task_ok buffers prp" and sp: "shape_preserving recv"
  shows "((\<exists>e. reduce_grads_task recv buffers prp self world_size = Inl e) \<longleftrightarrow>
           (\<exists>r<length prp. \<exists>j<length (prp ! r).
               (j < prefix_len (length (t_data (hd buffers))) (prp ! r)
                  \<and> \<not> grad_flat (prp ! r ! j))
             \<or> (prefix_len (length (t_data (hd buffers))) (prp ! r) \<le> j
                  \<and> needs_grad (prp ! r ! j))))
       \<and> (\<forall>e. reduce_grads_task recv buffers prp self world_size = Inl e
              \<longrightarrow> e = ViewError \<or> e = RequiresGradError)
       \<and> (reduce_grads_task recv buffers prp self world_size = Inl ViewError \<longrightarrow>
           (\<exists>r<length prp. \<exists>j<length (prp ! r).
               j < prefix_len (length (t_data (hd buffers))) (prp ! r)
               \<and> \<not> grad_flat (prp ! r ! j)))
       \<and> (reduce_grads_task recv buffers prp self world_size = Inl RequiresGradError \<longrightarrow>
           (\<exists>r<length prp. \<exists>j<length (prp ! r).
               prefix_len (length (t_data (hd buffers))) (prp ! r) \<le> j
               \<and> needs_grad (prp ! r ! j)))
       \<and> ((\<forall>r<length prp. \<forall>j<prefix_len (length (t_data (hd buffers))) (prp ! r).
              grad_flat (prp ! r ! j)) \<longrightarrow>
            (reduce_grads_task recv buffers prp self world_size = Inl RequiresGradError \<longleftrightarrow>
               (\<exists>r<length prp. \<exists>j<length (prp ! r).
                   packed_prefix (length (t_data (hd buffers))) (prp ! r) (buffers ! r) \<le> j
                   \<and> needs_grad (prp ! r ! j)))
          \<and> (\<forall>e. reduce_grads_task recv buffers prp self world_size = Inl e
                 \<longrightarrow> e = RequiresGradError))
       \<and> (\<forall>r<length prp.
            pack_loop (length (t_data (hd buffers))) (map fill_grad (prp ! r)) 0 0 (buffers ! r)
              = (if \<forall>j<prefix_len (length (t_data (hd buffers))) (prp ! r). grad_flat (prp ! r ! j)
                 then Inr (prefix_len (length (t_data (hd buffers))) (prp ! r),
                        sum_list (map p_numel
                          (take (prefix_len (length (t_data (hd buffers))) (prp ! r)) (prp ! r))),
                        (buffers ! r)\<lparr>t_data :=
                           concat (map gdata
                             (take (prefix_len (length (t_data (hd buffers))) (prp ! r))
                                (map fill_grad (prp ! r))))
                           @ drop (sum_list (map p_numel
                                (take (prefix_len (length (t_data (hd buffers))) (prp ! r))
                                   (prp ! r))))
                               (t_data (buffers ! r))\<rparr>)
                 else Inl ViewError))"
proof -
  define C where "C = length (t_data (hd buffers))"
  define res where "res = reduce_grads_task recv buffers prp self world_size"
  define V where "V \<longleftrightarrow> (\<exists>r<length prp. \<exists>j<length (prp ! r).
      j < prefix_len C (prp ! r) \<and> \<not> grad_flat (prp ! r ! j))"
  define G where "G \<longleftrightarrow> (\<exists>r<length prp. \<exists>j<length (prp ! r).
      prefix_len C (prp ! r) \<le> j \<and> needs_grad (prp ! r ! j))"
  have V: "V \<longleftrightarrow> \<not> list_all (prefix_flat C) prp"
    unfolding V_def not_all_prefix_flat_iff ..
  have G: "G \<longleftrightarrow> suffix_needs_grad C prp"
    unfolding G_def suffix_needs_grad_iff ..
  note out = task_outcome[OF ok sp C_def, of self world_size, folded res_def]
  have tot: "first_error C prp \<noteq> None \<longleftrightarrow> V \<or> G"
    unfolding V G by (rule first_error_total)
  have c1: "(\<exists>e. res = Inl e) \<longleftrightarrow> V \<or> G"
    using out tot by (cases "first_error C prp") auto
  have c2: "\<forall>e. res = Inl e \<longrightarrow> e = ViewError \<or> e = RequiresGradError"
    using out first_error_cases[of C prp] by (cases "first_error C prp") auto
  have c3: "res = Inl ViewError \<longrightarrow> V"
    using out first_error_View[of C prp] unfolding V
    by (cases "first_error C prp") auto
  have c4: "res = Inl RequiresGradError \<longrightarrow> G"
  proof
    assume a: "res = Inl RequiresGradError"
    with out have fe: "first_error C prp = Some RequiresGradError"
      by (cases "first_error C prp") auto
    have "suffix_needs_grad C prp"
      using fe by (induction prp) (auto simp: suffix_needs_grad_def rank_error_def
          split: option.splits if_splits)
    then show G unfolding G .
  qed
  have c5: "(\<forall>r<length prp. \<forall>j<prefix_len C (prp ! r). grad_flat (prp ! r ! j)) \<longrightarrow>
      (res = Inl RequiresGradError \<longleftrightarrow>
         (\<exists>r<length prp. \<exists>j<length (prp ! r).
             packed_prefix C (prp ! r) (buffers ! r) \<le> j \<and> needs_grad (prp ! r ! j)))
      \<and> (\<forall>e. res = Inl e \<longrightarrow> e = RequiresGradError)"
  proof
    assume "\<forall>r<length prp. \<forall>j<prefix_len C (prp ! r). grad_flat (prp ! r ! j)"
    then have fl: "list_all (prefix_flat C) prp" unfolding all_prefix_flat_iff .
    then have pf: "\<And>r. r < length prp \<Longrightarrow> prefix_flat C (prp ! r)"
      by (simp add: list_all_length)
    have pp: "\<And>r. r < length prp \<Longrightarrow>
        packed_prefix C (prp ! r) (buffers ! r) = prefix_len C (prp ! r)"
      unfolding C_def by (rule task_ok_packed_prefix[OF ok _ pf[unfolded C_def]])
    have rhs: "(\<exists>r<length prp. \<exists>j<length (prp ! r).
             packed_prefix C (prp ! r) (buffers ! r) \<le> j \<and> needs_grad (prp ! r ! j)) \<longleftrightarrow> G"
      unfolding G_def by (simp add: pp cong: conj_cong)
    have fe: "first_error C prp = (if G then Some RequiresGradError else None)"
      unfolding G by (rule prefix_flat_all[OF fl])
    show "(res = Inl RequiresGradError \<longleftrightarrow>
         (\<exists>r<length prp. \<exists>j<length (prp ! r).
             packed_prefix C (prp ! r) (buffers ! r) \<le> j \<and> needs_grad (prp ! r ! j)))
      \<and> (\<forall>e. res = Inl e \<longrightarrow> e = RequiresGradError)"
      unfolding rhs using out fe by (cases G) auto
  qed
  have c1': "(\<exists>e. res = Inl e) \<longleftrightarrow>
           (\<exists>r<length prp. \<exists>j<length (prp ! r).
               (j < prefix_len C (prp ! r) \<and> \<not> grad_flat (prp ! r ! j))
             \<or> (prefix_len C (prp ! r) \<le> j \<and> needs_grad (prp ! r ! j)))"
    unfolding c1 V_def G_def by blast
  have c6: "\<forall>r<length prp.
            pack_loop C (map fill_grad (prp ! r)) 0 0 (buffers ! r)
              = (if \<forall>j<prefix_len C (prp ! r). grad_flat (prp ! r ! j)
                 then Inr (prefix_len C (prp ! r),
                        sum_list (map p_numel (take (prefix_len C (prp ! r)) (prp ! r))),
                        (buffers ! r)\<lparr>t_data :=
                           concat (map gdata
                             (take (prefix_len C (prp ! r)) (map fill_grad (prp ! r))))
                           @ drop (sum_list (map p_numel
                                (take (prefix_len C (prp ! r)) (prp ! r))))
                               (t_data (buffers ! r))\<rparr>)
                 else Inl ViewError)"
  proof (intro allI impI)
    fix r assume r: "r < length prp"
    have cap: "C \<le> length (t_data (buffers ! r))"
      using task_ok_rank(2)[OF ok r] by (simp add: C_def)
    show "pack_loop C (map fill_grad (prp ! r)) 0 0 (buffers ! r)
              = (if \<forall>j<prefix_len C (prp ! r). grad_flat (prp ! r ! j)
                 then Inr (prefix_len C (prp ! r),
                        sum_list (map p_numel (take (prefix_len C (prp ! r)) (prp ! r))),
                        (buffers ! r)\<lparr>t_data :=
                           concat (map gdata
                             (take (prefix_len C (prp ! r)) (map fill_grad (prp ! r))))
                           @ drop (sum_list (map p_numel
                                (take (prefix_len C (prp ! r)) (prp ! r))))
                               (t_data (buffers ! r))\<rparr>)
                 else Inl ViewError)"
      unfolding pack_loop_fill[OF task_ok_rank(1)[OF ok r] cap] prefix_flat_iff ..
  qed
  from c1' c2 c3[unfolded V_def] c4[unfolded G_def] c5 c6 show ?thesis
    unfolding res_def C_def by (intro conjI)
qed

theorem requires_grad_error_iff_witness:
  "task_ok example_buffers example_suffix_requires_grad
   \<and> shape_preserving keep
   \<and> reduce_grads_task keep example_buffers example_suffix_requires_grad 0 2 = Inl RequiresGradError
   \<and> packed_prefix 4 (example_suffix_requires_grad ! 0) (example_buffers ! 0) = 2
   \<and> needs_grad (example_suffix_requires_grad ! 0 ! 2)
   \<and> map (map grad_flat) example_suffix_requires_grad = [[True, True, True], [True, True]]
   \<and> task_ok example_buffers example_prefix_requires_grad
   \<and> reduce_grads_task keep example_buffers example_prefix_requires_grad 0 2 \<noteq> Inl RequiresGradError
   \<and> needs_grad (example_prefix_requires_grad ! 0 ! 0)"
proof -
  have h1: "task_ok example_buffers example_suffix_requires_grad"
    by (simp add: task_ok_def grad_shape_ok_def example_task_defs)
  have h2: "task_ok example_buffers example_prefix_requires_grad"
    by (simp add: task_ok_def grad_shape_ok_def example_task_defs)
  have e1: "packed_prefix 4 (example_suffix_requires_grad ! 0) (example_buffers ! 0) = 2"
    by (simp add: run_defs example_task_defs eval_nat_numeral)
  have e2: "needs_grad (example_suffix_requires_grad ! 0 ! 2)"
    by (simp add: needs_grad_def example_task_defs eval_nat_numeral)
  have e3: "needs_grad (example_prefix_requires_grad ! 0 ! 0)"
    by (simp add: needs_grad_def example_task_defs)
  have e4: "reduce_grads_task keep example_buffers example_prefix_requires_grad 0 2
      \<noteq> Inl RequiresGradError"
    by (simp add: run_defs example_task_defs keep_def eval_nat_numeral)
  have e5: "map (map grad_flat) example_suffix_requires_grad = [[True, True, True], [True, True]]"
    by (simp add: grad_flat_def run_defs example_task_defs)
  have lens: "length (t_data (hd example_buffers)) = 4" "length example_suffix_requires_grad = 2"
    "length (example_suffix_requires_grad ! 0) = 3" "length (example_suffix_requires_grad ! 1) = 2"
    by (simp_all add: example_task_defs)
  have flat: "\<forall>r<length example_suffix_requires_grad.
      \<forall>j<prefix_len (length (t_data (hd example_buffers))) (example_suffix_requires_grad ! r).
        grad_flat (example_suffix_requires_grad ! r ! j)"
  proof (intro allI impI)
    fix r j
    assume r: "r < length example_suffix_requires_grad"
      and "j < prefix_len (length (t_data (hd example_buffers))) (example_suffix_requires_grad ! r)"
    with prefix_len_le[of "length (t_data (hd example_buffers))" "example_suffix_requires_grad ! r"]
    have j: "j < length (example_suffix_requires_grad ! r)" by simp
    from r j have "map (map grad_flat) example_suffix_requires_grad ! r ! j
        = grad_flat (example_suffix_requires_grad ! r ! j)" by simp
    moreover from r j lens have "[[True, True, True], [True, True]] ! r ! j"
      by (auto simp: less_Suc_eq eval_nat_numeral)
    ultimately show "grad_flat (example_suffix_requires_grad ! r ! j)"
      unfolding e5 by simp
  qed
  have "\<exists>r<length example_suffix_requires_grad. \<exists>j<length (example_suffix_requires_grad ! r).
      packed_prefix (length (t_data (hd example_buffers))) (example_suffix_requires_grad ! r)
        (example_buffers ! r) \<le> j \<and> needs_grad (example_suffix_requires_grad ! r ! j)"
    unfolding lens(1)
    apply (rule exI[of _ 0])
    apply (simp add: lens)
    apply (rule exI[of _ 2])
    apply (simp add: e1 e2)
    done
  with requires_grad_error_iff[OF h1 keep_shape, of 0 2] flat
  have "reduce_grads_task keep example_buffers example_suffix_requires_grad 0 2
      = Inl RequiresGradError" by blast
  with h1 h2 keep_shape e1 e2 e3 e4 e5 show ?thesis by simp
qed

lemma task_Inr_final:
  assumes ok: "task_ok buffers prp" and sp: "shape_preserving recv"
      and res: "reduce_grads_task recv buffers prp self world_size =
                  Inr (prp', bufs', bucket_requests, requests)"
      and C: "C = length (t_data (hd buffers))"
  shows "first_error C prp = None"
    and "bucket_requests = concat (map (bucket_requests_of C) (enumerate 0 prp))"
    and "requests = concat (map (requests_of C) (enumerate 0 prp))"
    and "length prp' = length prp"
    and "\<And>r. r < length prp \<Longrightarrow> length (prp' ! r) = length (prp ! r)"
    and "\<And>r j. r < length prp \<Longrightarrow> j < length (prp ! r) \<Longrightarrow>
           prp' ! r ! j = final_param recv world_size C self r j (prp ! r) (buffers ! r)"
proof -
  show good: "first_error C prp = None"
  proof (cases "first_error C prp")
    case (Some e)
    from task_raises[OF ok Some C, of recv self world_size] res show ?thesis by simp
  qed
  from task_result[OF ok sp good C, of self world_size] res
  have a: "bucket_requests = concat (map (bucket_requests_of C) (enumerate 0 prp))
     \<and> requests = concat (map (requests_of C) (enumerate 0 prp))
     \<and> length prp' = length prp
     \<and> (\<forall>r<length prp. length (prp' ! r) = length (prp ! r)
          \<and> (\<forall>j<length (prp ! r).
                prp' ! r ! j = final_param recv world_size C self r j (prp ! r) (buffers ! r)))"
    by auto
  from a show "bucket_requests = concat (map (bucket_requests_of C) (enumerate 0 prp))" by blast
  from a show "requests = concat (map (requests_of C) (enumerate 0 prp))" by blast
  from a show "length prp' = length prp" by blast
  from a show "\<And>r. r < length prp \<Longrightarrow> length (prp' ! r) = length (prp ! r)" by blast
  from a show "\<And>r j. r < length prp \<Longrightarrow> j < length (prp ! r) \<Longrightarrow>
           prp' ! r ! j = final_param recv world_size C self r j (prp ! r) (buffers ! r)" by blast
qed

lemma final_param_grad:
  "grad (final_param recv world_size C self r j params buffer) \<noteq> None"
  by (simp add: final_param_def recv_grad_def set_gdata_def scale_grad_def fill_grad_def
      split: option.splits)

lemma final_param_numel:
  "p_numel (final_param recv world_size C self r j params buffer) = p_numel (params ! j)"
  by (simp add: final_param_def recv_grad_def)

lemma no_needs_grad_suffix:
  assumes "\<forall>r<length prp. \<forall>p\<in>set (prp ! r). \<not> needs_grad p"
  shows "\<not> suffix_needs_grad C prp"
  unfolding suffix_needs_grad_iff using assms by (meson nth_mem)

lemmas example_result_defs = example_result_params_def example_issued_params_def
  example_result_buffers_def

lemma example_task_ok: "task_ok example_buffers example_params"
  by (simp add: task_ok_def grad_shape_ok_def example_task_defs)

lemma example_run:
  "reduce_grads_task keep example_buffers example_params 0 2 =
     Inr (example_result_params, example_result_buffers,
          [(BucketReduce 0, 0), (BucketReduce 1, 1)], [GradReduce 0 2, GradReduce 1 1])"
  by (simp add: run_defs example_task_defs example_result_defs keep_def eval_nat_numeral)

lemma example_issue:
  "issue_phase 2 example_params example_buffers =
     Inr (4, example_issued_params, example_result_buffers,
          [(BucketReduce 0, 0), (BucketReduce 1, 1)], [GradReduce 0 2, GradReduce 1 1])"
  by (simp add: run_defs example_task_defs example_result_defs eval_nat_numeral)

lemma example_prefix:
  "packed_prefix 4 (example_params ! 0) (example_buffers ! 0) = 2"
  "packed_prefix 4 (example_params ! 1) (example_buffers ! 1) = 1"
  by (simp_all add: run_defs example_task_defs eval_nat_numeral)

text \<open>
  Claim C10. When a call on rank \<open>self\<close> returns, every parameter in the packed prefix of
  a rank other than \<open>self\<close> holds the gradient it held when packing began (its own
  gradient, or the zeros that filled the empty slot), whatever the transport did to the
  buffers: the bucket of another rank is never unpacked into gradient slots.
\<close>

theorem other_rank_prefix_untouched:
  assumes ok: "task_ok buffers prp" and sp: "shape_preserving recv"
      and res: "reduce_grads_task recv buffers prp self world_size =
                  Inr (prp', bufs', bucket_requests, requests)"
      and r: "r < length prp" and other: "r \<noteq> self"
      and j: "j < packed_prefix (length (t_data (hd buffers))) (prp ! r) (buffers ! r)"
  shows "prp' ! r ! j = fill_grad (prp ! r ! j)"
proof -
  define C where "C = length (t_data (hd buffers))"
  have "prefix_flat C (prp ! r)"
    by (rule first_error_flat[OF task_Inr_final(1)[OF ok sp res C_def] r])
  with j have jk: "j < prefix_len C (prp ! r)"
    unfolding C_def by (simp add: task_ok_packed_prefix[OF ok r])
  with prefix_len_le[of C "prp ! r"] have jl: "j < length (prp ! r)" by simp
  from task_Inr_final(6)[OF ok sp res C_def r jl] jk other show ?thesis
    by (simp add: final_param_def)
qed

theorem other_rank_prefix_untouched_witness:
  "task_ok example_buffers example_params
   \<and> shape_preserving keep
   \<and> reduce_grads_task keep example_buffers example_params 0 2 =
       Inr (example_result_params, example_result_buffers,
            [(BucketReduce 0, 0), (BucketReduce 1, 1)], [GradReduce 0 2, GradReduce 1 1])
   \<and> (1::nat) < length example_params
   \<and> (1::nat) \<noteq> 0
   \<and> 0 < packed_prefix (length (t_data (hd example_buffers))) (example_params ! 1)
           (example_buffers ! 1)
   \<and> example_result_params ! 1 ! 0 = fill_grad (example_params ! 1 ! 0)
   \<and> example_result_params ! 1 ! 0 = mk_param 1 float32 [6]"
proof -
  have h4: "(1::nat) < length example_params" by (simp add: example_params_def)
  have h5: "(1::nat) \<noteq> 0" by simp
  have l: "length (t_data (hd example_buffers)) = 4" by (simp add: example_task_defs)
  have h6: "0 < packed_prefix (length (t_data (hd example_buffers))) (example_params ! 1)
           (example_buffers ! 1)"
    unfolding l example_prefix by simp
  have v: "example_result_params ! 1 ! 0 = mk_param 1 float32 [6]"
    by (simp add: example_result_params_def)
  from other_rank_prefix_untouched[OF example_task_ok keep_shape example_run h4 h5 h6]
    example_task_ok keep_shape example_run h4 h6 v
  show ?thesis by simp
qed

text \<open>
  Claim C7, as stated, fails. In the state \<open>permuted_state None\<close> the second parameter of
  rank 0 is stored transposed, is packed and has no gradient; no gradient requires grad.
  \<open>zeros_like\<close> gives the filled slot the strides of the parameter, and the call raises
  from \<open>view(-1)\<close> at line 117. Had the slot held contiguous zeros, the call would have
  returned: the error is raised for the absence.
\<close>

theorem absent_gradient_raises_counterexample:
  "task_ok wide_buffers (permuted_state None)
   \<and> grad (permuted_state None ! 0 ! 1) = None
   \<and> map (map needs_grad) (permuted_state None) = [[False, False, False], [False, False]]
   \<and> reduce_grads_task keep wide_buffers (permuted_state None) 0 2 = Inl ViewError
   \<and> map_sum id fst
       (reduce_grads_task keep wide_buffers
          (permuted_state (Some (mk_buffer float32 [0, 0, 0, 0]))) 0 2)
       = Inr [[mk_param 1 float32 [1],
               \<lparr>p_numel = 4, p_dtype = float32,
                 grad = Some (mk_buffer float32 [0, 0, 0, 0]), p_layout = Permuted\<rparr>,
               mk_param 5 float32 [1, 2, 3, 4, 5]],
              [mk_param 1 float32 [6], mk_param 3 float32 [4, 4, 8]]]"
  by (simp add: task_ok_def grad_shape_ok_def needs_grad_def run_defs permuted_defs keep_def
      eval_nat_numeral)

text \<open>
  Claim C7, amended. A call treats an absent gradient as \<open>zeros_like\<close> of the parameter:
  the call gives the same result as on the state with every empty slot filled by
  \<open>zeros_like\<close>, zeros in the shape, dtype and, where they are dense, strides of the
  parameter; the filled slot can be flattened unless the parameter is stored dense and
  not contiguous; the packed-prefix length of a rank whose packed gradients can be
  flattened depends on the element counts alone, so the parameter keeps its place in the
  packing and in the reduces; when no gradient that is present requires grad and every
  gradient below the packed-prefix lengths can be flattened, the call returns normally,
  whichever gradients are absent; when it returns, every parameter has a gradient and
  its element count; and when a parameter below the packed-prefix length of its rank has
  no gradient and is stored dense and not contiguous, the call raises.
\<close>

theorem absent_gradient_filled:
  assumes ok: "task_ok buffers prp" and sp: "shape_preserving recv"
  shows "reduce_grads_task recv buffers (map (map fill_grad) prp) self world_size
           = reduce_grads_task recv buffers prp self world_size
     \<and> (\<forall>p. grad p = None \<longrightarrow>
            grad (fill_grad p) = Some \<lparr>t_dtype = p_dtype p, t_data = replicate (p_numel p) 0,
                                       requires_grad = False,
                                       t_layout = zeros_like_layout (p_layout p)\<rparr>
          \<and> (grad_flat p \<longleftrightarrow> p_layout p \<noteq> Permuted))
     \<and> (\<forall>r<length prp.
            (\<forall>j<bucket_len (length (t_data (hd buffers))) (map p_numel (prp ! r)) 0.
                grad_flat (prp ! r ! j))
            \<longrightarrow> packed_prefix (length (t_data (hd buffers))) (prp ! r) (buffers ! r)
                  = bucket_len (length (t_data (hd buffers))) (map p_numel (prp ! r)) 0)
     \<and> ((\<forall>r<length prp. \<forall>p\<in>set (prp ! r). \<forall>g. grad p = Some g \<longrightarrow> \<not> requires_grad g)
          \<and> (\<forall>r<length prp.
                \<forall>j<bucket_len (length (t_data (hd buffers))) (map p_numel (prp ! r)) 0.
                  grad_flat (prp ! r ! j))
          \<longrightarrow> (\<exists>res. reduce_grads_task recv buffers prp self world_size = Inr res))
     \<and> (\<forall>prp' bufs' bucket_requests requests.
            reduce_grads_task recv buffers prp self world_size
              = Inr (prp', bufs', bucket_requests, requests)
            \<longrightarrow> (\<forall>r<length prp. length (prp' ! r) = length (prp ! r)
                   \<and> (\<forall>j<length (prp ! r). grad (prp' ! r ! j) \<noteq> None
                          \<and> p_numel (prp' ! r ! j) = p_numel (prp ! r ! j))))
     \<and> ((\<exists>r<length prp.
            \<exists>j<bucket_len (length (t_data (hd buffers))) (map p_numel (prp ! r)) 0.
              grad (prp ! r ! j) = None \<and> p_layout (prp ! r ! j) = Permuted)
          \<longrightarrow> (\<exists>e. reduce_grads_task recv buffers prp self world_size = Inl e))"
proof (intro conjI)
  define C where "C = length (t_data (hd buffers))"
  show "(\<exists>r<length prp.
            \<exists>j<bucket_len (length (t_data (hd buffers))) (map p_numel (prp ! r)) 0.
              grad (prp ! r ! j) = None \<and> p_layout (prp ! r ! j) = Permuted)
          \<longrightarrow> (\<exists>e. reduce_grads_task recv buffers prp self world_size = Inl e)"
  proof
    assume "\<exists>r<length prp.
            \<exists>j<bucket_len (length (t_data (hd buffers))) (map p_numel (prp ! r)) 0.
              grad (prp ! r ! j) = None \<and> p_layout (prp ! r ! j) = Permuted"
    then obtain r j where r: "r < length prp" and j: "j < prefix_len C (prp ! r)"
      and n: "grad (prp ! r ! j) = None" and l: "p_layout (prp ! r ! j) = Permuted"
      unfolding prefix_len_def C_def by blast
    from n l have "\<not> grad_flat (prp ! r ! j)" by (simp add: grad_flat_None)
    with r j have "\<not> list_all (prefix_flat C) prp"
      unfolding all_prefix_flat_iff by blast
    then have "first_error C prp \<noteq> None" unfolding first_error_total by simp
    with task_outcome[OF ok sp C_def, of self world_size]
    show "\<exists>e. reduce_grads_task recv buffers prp self world_size = Inl e"
      by (cases "first_error C prp") auto
  qed
  from ok have len: "length prp \<le> length buffers" unfolding task_ok_def by simp
  show "reduce_grads_task recv buffers (map (map fill_grad) prp) self world_size
           = reduce_grads_task recv buffers prp self world_size"
    by (rule reduce_grads_task_fill[OF len])
  show "\<forall>p. grad p = None \<longrightarrow>
            grad (fill_grad p) = Some \<lparr>t_dtype = p_dtype p, t_data = replicate (p_numel p) 0,
                                       requires_grad = False,
                                       t_layout = zeros_like_layout (p_layout p)\<rparr>
          \<and> (grad_flat p \<longleftrightarrow> p_layout p \<noteq> Permuted)"
    by (simp add: fill_grad_def zeros_like_def grad_flat_None)
  show "\<forall>r<length prp.
            (\<forall>j<bucket_len (length (t_data (hd buffers))) (map p_numel (prp ! r)) 0.
                grad_flat (prp ! r ! j))
            \<longrightarrow> packed_prefix (length (t_data (hd buffers))) (prp ! r) (buffers ! r)
                  = bucket_len (length (t_data (hd buffers))) (map p_numel (prp ! r)) 0"
    using task_ok_packed_prefix[OF ok] by (simp add: prefix_flat_iff prefix_len_def)
  show "(\<forall>r<length prp. \<forall>p\<in>set (prp ! r). \<forall>g. grad p = Some g \<longrightarrow> \<not> requires_grad g)
          \<and> (\<forall>r<length prp.
                \<forall>j<bucket_len (length (t_data (hd buffers))) (map p_numel (prp ! r)) 0.
                  grad_flat (prp ! r ! j))
          \<longrightarrow> (\<exists>res. reduce_grads_task recv buffers prp self world_size = Inr res)"
  proof
    assume a0: "(\<forall>r<length prp. \<forall>p\<in>set (prp ! r). \<forall>g. grad p = Some g \<longrightarrow> \<not> requires_grad g)
          \<and> (\<forall>r<length prp.
                \<forall>j<bucket_len (length (t_data (hd buffers))) (map p_numel (prp ! r)) 0.
                  grad_flat (prp ! r ! j))"
    then have a: "\<forall>r<length prp. \<forall>p\<in>set (prp ! r). \<forall>g. grad p = Some g \<longrightarrow> \<not> requires_grad g"
      and f: "\<forall>r<length prp. \<forall>j<prefix_len C (prp ! r). grad_flat (prp ! r ! j)"
      by (simp_all add: prefix_len_def C_def)
    have "\<forall>r<length prp. \<forall>p\<in>set (prp ! r). \<not> needs_grad p"
    proof (intro allI impI ballI)
      fix r p assume "r < length prp" "p \<in> set (prp ! r)"
      with a show "\<not> needs_grad p"
        by (cases "grad p") (auto simp: needs_grad_def)
    qed
    from no_needs_grad_suffix[OF this] have "\<not> suffix_needs_grad C prp" .
    moreover from f have "list_all (prefix_flat C) prp" unfolding all_prefix_flat_iff .
    ultimately have "first_error C prp = None" by (simp add: prefix_flat_all)
    from task_result[OF ok sp this C_def, of self world_size]
    show "\<exists>res. reduce_grads_task recv buffers prp self world_size = Inr res" by blast
  qed
  show "\<forall>prp' bufs' bucket_requests requests.
            reduce_grads_task recv buffers prp self world_size
              = Inr (prp', bufs', bucket_requests, requests)
            \<longrightarrow> (\<forall>r<length prp. length (prp' ! r) = length (prp ! r)
                   \<and> (\<forall>j<length (prp ! r). grad (prp' ! r ! j) \<noteq> None
                          \<and> p_numel (prp' ! r ! j) = p_numel (prp ! r ! j)))"
  proof (intro allI impI conjI)
    fix prp' bufs' bucket_requests requests r
    assume res: "reduce_grads_task recv buffers prp self world_size
              = Inr (prp', bufs', bucket_requests, requests)" and r: "r < length prp"
    note f = task_Inr_final[OF ok sp res refl]
    show "length (prp' ! r) = length (prp ! r)" by (rule f(5)[OF r])
    fix j assume j: "j < length (prp ! r)"
    show "grad (prp' ! r ! j) \<noteq> None"
      unfolding f(6)[OF r j] by (rule final_param_grad)
    show "p_numel (prp' ! r ! j) = p_numel (prp ! r ! j)"
      unfolding f(6)[OF r j] by (rule final_param_numel)
  qed
qed

theorem absent_gradient_filled_witness:
  "task_ok example_buffers example_params
   \<and> shape_preserving keep
   \<and> grad (example_params ! 0 ! 1) = None
   \<and> map (map grad_flat) example_params = [[True, True, True], [True, True]]
   \<and> reduce_grads_task keep example_buffers (map (map fill_grad) example_params) 0 2
       = reduce_grads_task keep example_buffers example_params 0 2
   \<and> reduce_grads_task keep example_buffers example_params 0 2 =
       Inr (example_result_params, example_result_buffers,
            [(BucketReduce 0, 0), (BucketReduce 1, 1)], [GradReduce 0 2, GradReduce 1 1])
   \<and> grad (fill_grad (example_params ! 0 ! 1))
       = Some \<lparr>t_dtype = float16, t_data = [0, 0], requires_grad = False, t_layout = Contiguous\<rparr>
   \<and> packed_prefix 4 (example_params ! 0) (example_buffers ! 0) = 2
   \<and> bucket_len 4 (map p_numel (example_params ! 0)) 0 = 2
   \<and> grad (example_result_params ! 0 ! 1) \<noteq> None
   \<and> p_numel (example_result_params ! 0 ! 1) = 2"
proof -
  note t = absent_gradient_filled[OF example_task_ok keep_shape, of 0 2]
  from t have c1: "reduce_grads_task keep example_buffers (map (map fill_grad) example_params) 0 2
       = reduce_grads_task keep example_buffers example_params 0 2" by blast
  have n: "grad (example_params ! 0 ! 1) = None" by (simp add: example_params_def)
  have fl: "map (map grad_flat) example_params = [[True, True, True], [True, True]]"
    by (simp add: grad_flat_def run_defs example_task_defs)
  from t have "grad (example_params ! 0 ! 1) = None \<longrightarrow>
     grad (fill_grad (example_params ! 0 ! 1)) =
       Some \<lparr>t_dtype = p_dtype (example_params ! 0 ! 1),
             t_data = replicate (p_numel (example_params ! 0 ! 1)) 0, requires_grad = False,
             t_layout = zeros_like_layout (p_layout (example_params ! 0 ! 1))\<rparr>"
    by blast
  with n have c2: "grad (fill_grad (example_params ! 0 ! 1))
       = Some \<lparr>t_dtype = float16, t_data = [0, 0], requires_grad = False, t_layout = Contiguous\<rparr>"
    by (simp add: example_params_def zeros_like_layout_def eval_nat_numeral)
  have r0: "(0::nat) < length example_params" and j1: "(1::nat) < length (example_params ! 0)"
    by (simp_all add: example_params_def)
  have l: "length (t_data (hd example_buffers)) = 4" by (simp add: example_task_defs)
  have bl: "bucket_len 4 (map p_numel (example_params ! 0)) 0 = 2"
    by (simp add: example_task_defs)
  have f0: "\<forall>j<bucket_len (length (t_data (hd example_buffers)))
               (map p_numel (example_params ! 0)) 0. grad_flat (example_params ! 0 ! j)"
    unfolding l bl using fl by (simp add: less_Suc_eq eval_nat_numeral example_params_def)
  from t r0 f0 have c4: "packed_prefix (length (t_data (hd example_buffers)))
        (example_params ! 0) (example_buffers ! 0)
      = bucket_len (length (t_data (hd example_buffers))) (map p_numel (example_params ! 0)) 0"
    by blast
  from t example_run r0 j1 have c3: "grad (example_result_params ! 0 ! 1) \<noteq> None
      \<and> p_numel (example_result_params ! 0 ! 1) = p_numel (example_params ! 0 ! 1)"
    by blast
  have pn: "p_numel (example_params ! 0 ! 1) = 2" by (simp add: example_params_def)
  from example_task_ok keep_shape n c1 c2 c3 c4[unfolded l bl] pn example_run bl fl
  show ?thesis by simp
qed

lemma gdata_scale: "gdata (scale_grad world_size p) = map (\<lambda>x. x / of_nat world_size) (gdata p)"
  by (cases "grad p") (simp_all add: gdata_def scale_grad_def div_tensor_def)

lemma issue_phase_Inr:
  assumes ok: "task_ok buffers prp"
      and issue: "issue_phase world_size prp buffers = Inr (C, prp1, bufs1, bucket_requests, requests)"
  shows "C = length (t_data (hd buffers))"
    and "prp1 = map (issued_params world_size C) prp"
    and "bufs1 = map2 (issued_buffer world_size C) prp buffers"
    and "bucket_requests = concat (map (bucket_requests_of C) (enumerate 0 prp))"
    and "requests = concat (map (requests_of C) (enumerate 0 prp))"
    and "first_error C prp = None"
  using issue unfolding issue_phase_eq[OF ok] by (auto split: option.splits)

lemma prefix_grads_ok:
  assumes "list_all grad_shape_ok params"
  shows "list_all grad_ok (take k (map fill_grad params))"
  using list_all_fill_grad[OF assms] set_take_subset[of k "map fill_grad params"]
  unfolding list_all_iff by blast

lemma issued_buffer_slice:
  assumes sh: "list_all grad_shape_ok params" and j: "j < prefix_len C params"
  shows "py_slice (t_data (issued_buffer world_size C params buffer))
           (sum_list (map p_numel (take j params)))
           (sum_list (map p_numel (take j params)) + p_numel (params ! j))
         = map (\<lambda>x. x / of_nat world_size) (gdata (fill_grad (params ! j)))"
proof -
  define k where "k = prefix_len C params"
  define ps where "ps = take k (map fill_grad params)"
  define rest where "rest = drop (sum_list (map p_numel (take k params))) (t_data buffer)"
  have kl: "k \<le> length params" unfolding k_def by (rule prefix_len_le)
  have jk: "j < k" using j by (simp add: k_def)
  have jl: "j < length ps" using jk kl by (simp add: ps_def)
  have ok: "list_all grad_ok ps" unfolding ps_def by (rule prefix_grads_ok[OF sh])
  have tj: "map p_numel (take j ps) = map p_numel (take j params)"
    using jk by (simp add: ps_def take_map[symmetric] min_def del: map_map)
  have nj: "ps ! j = fill_grad (params ! j)"
    using jk kl by (simp add: ps_def)
  have d: "t_data (issued_buffer world_size C params buffer) =
      map (\<lambda>x. x / of_nat world_size) (concat (map gdata ps) @ rest)"
    using jk by (simp add: issued_buffer_def div_tensor_def k_def[symmetric] ps_def rest_def)
  from py_slice_concat[OF ok jl, of rest]
  have "py_slice (concat (map gdata ps) @ rest) (sum_list (map p_numel (take j params)))
           (sum_list (map p_numel (take j params)) + p_numel (params ! j)) =
        gdata (fill_grad (params ! j))"
    unfolding tj nj by simp
  then show ?thesis
    unfolding d py_slice_map by simp
qed

lemma issued_buffer_prefix:
  assumes sh: "list_all grad_shape_ok params" and k: "0 < prefix_len C params"
  shows "take (sum_list (map p_numel (take (prefix_len C params) params)))
           (t_data (issued_buffer world_size C params buffer))
         = map (\<lambda>x. x / of_nat world_size)
             (concat (map gdata (take (prefix_len C params) (map fill_grad params))))"
proof -
  define ps where "ps = take (prefix_len C params) (map fill_grad params)"
  have ok: "list_all grad_ok ps" unfolding ps_def by (rule prefix_grads_ok[OF sh])
  have "map p_numel ps = map p_numel (take (prefix_len C params) params)"
    by (simp add: ps_def take_map[symmetric] del: map_map)
  with concat_gdata_length[OF ok]
  have l: "length (concat (map gdata ps)) =
      sum_list (map p_numel (take (prefix_len C params) params))" by simp
  have "t_data (issued_buffer world_size C params buffer) =
      map (\<lambda>x. x / of_nat world_size) (concat (map gdata ps))
      @ map (\<lambda>x. x / of_nat world_size)
          (drop (sum_list (map p_numel (take (prefix_len C params) params))) (t_data buffer))"
    using k by (simp add: issued_buffer_def div_tensor_def ps_def[symmetric])
  then show ?thesis
    unfolding ps_def[symmetric] l[symmetric] by simp
qed

lemma filter_rank_buckets:
  "filter (\<lambda>x. snd x = r0) (concat (map (bucket_requests_of C) (enumerate (Suc r0) prp))) = []"
proof -
  have "\<And>x. x \<in> set (concat (map (bucket_requests_of C) (enumerate (Suc r0) prp)))
      \<Longrightarrow> snd x \<noteq> r0"
    unfolding bucket_requests_mem by auto
  then show ?thesis unfolding filter_empty_conv by blast
qed

lemma filter_rank_requests:
  "filter (\<lambda>q. dst q = r0) (concat (map (requests_of C) (enumerate (Suc r0) prp))) = []"
proof -
  have "\<And>q. q \<in> set (concat (map (requests_of C) (enumerate (Suc r0) prp)))
      \<Longrightarrow> dst q \<noteq> r0"
    unfolding requests_mem by auto
  then show ?thesis unfolding filter_empty_conv by blast
qed

text \<open>
  Claim C3. When the submission loop of a call returns, every parameter of every rank
  list went through exactly one path. A parameter at an index below the packed-prefix
  length of its rank has its scaled gradient in the rank's buffer at its offset, the
  buffer's reduce was submitted exactly once, and no reduce was submitted on the
  gradient itself. A parameter at or above the packed-prefix length had exactly one
  reduce submitted on its own, scaled, gradient; and the packed part of the buffer holds
  the gradients of the prefix and nothing else.
\<close>

theorem exactly_one_path:
  assumes ok: "task_ok buffers prp"
      and issue: "issue_phase world_size prp buffers = Inr (C, prp1, bufs1, bucket_requests, requests)"
      and r: "r < length prp" and j: "j < length (prp ! r)"
  shows "(j < packed_prefix C (prp ! r) (buffers ! r) \<longrightarrow>
            py_slice (t_data (bufs1 ! r)) (sum_list (map p_numel (take j (prp ! r))))
                (sum_list (map p_numel (take j (prp ! r))) + p_numel (prp ! r ! j))
              = map (\<lambda>x. x / of_nat world_size) (gdata (fill_grad (prp ! r ! j)))
          \<and> count_list bucket_requests (BucketReduce r, r) = 1
          \<and> count_list requests (GradReduce r j) = 0)
      \<and> (packed_prefix C (prp ! r) (buffers ! r) \<le> j \<longrightarrow>
            count_list requests (GradReduce r j) = 1
          \<and> gdata (prp1 ! r ! j) = map (\<lambda>x. x / of_nat world_size) (gdata (fill_grad (prp ! r ! j))))
      \<and> (0 < packed_prefix C (prp ! r) (buffers ! r) \<longrightarrow>
            take (sum_list (map p_numel (take (packed_prefix C (prp ! r) (buffers ! r)) (prp ! r))))
                (t_data (bufs1 ! r))
              = map (\<lambda>x. x / of_nat world_size)
                  (concat (map gdata (take (packed_prefix C (prp ! r) (buffers ! r))
                                        (map fill_grad (prp ! r))))))"
proof -
  note f = issue_phase_Inr[OF ok issue]
  have pf: "prefix_flat C (prp ! r)" by (rule first_error_flat[OF f(6) r])
  have pp: "packed_prefix C (prp ! r) (buffers ! r) = prefix_len C (prp ! r)"
    unfolding f(1) by (rule task_ok_packed_prefix[OF ok r pf[unfolded f(1)]])
  note sh = task_ok_rank(1)[OF ok r]
  have rb: "r < length buffers" by (rule task_ok_rank(3)[OF ok r])
  have b1: "bufs1 ! r = issued_buffer world_size C (prp ! r) (buffers ! r)"
    unfolding f(3) using r rb by simp
  have p1: "prp1 ! r ! j = issued_params world_size C (prp ! r) ! j"
    unfolding f(2) using r by simp
  have db: "distinct bucket_requests"
    using bucket_requests_distinct[of C 0 prp] unfolding f(4) by (simp add: distinct_map)
  have dr: "distinct requests" unfolding f(5) by (rule requests_distinct)
  have mb: "(BucketReduce r, r) \<in> set bucket_requests \<longleftrightarrow> 0 < prefix_len C (prp ! r)"
    unfolding f(4) bucket_requests_mem using r by auto
  have mr: "GradReduce r j \<in> set requests \<longleftrightarrow> prefix_len C (prp ! r) \<le> j"
    unfolding f(5) requests_mem using r j by auto
  show ?thesis
    unfolding pp b1 p1
  proof (intro conjI impI)
    assume jk: "j < prefix_len C (prp ! r)"
    show "py_slice (t_data (issued_buffer world_size C (prp ! r) (buffers ! r)))
            (sum_list (map p_numel (take j (prp ! r))))
            (sum_list (map p_numel (take j (prp ! r))) + p_numel (prp ! r ! j))
          = map (\<lambda>x. x / of_nat world_size) (gdata (fill_grad (prp ! r ! j)))"
      by (rule issued_buffer_slice[OF sh jk])
    from jk mb show "count_list bucket_requests (BucketReduce r, r) = 1"
      by (simp add: count_list_distinct[OF db])
    from jk mr show "count_list requests (GradReduce r j) = 0"
      by (simp add: count_list_distinct[OF dr])
  next
    assume kj: "prefix_len C (prp ! r) \<le> j"
    with mr show "count_list requests (GradReduce r j) = 1"
      by (simp add: count_list_distinct[OF dr])
    from kj j show "gdata (issued_params world_size C (prp ! r) ! j)
        = map (\<lambda>x. x / of_nat world_size) (gdata (fill_grad (prp ! r ! j)))"
      by (simp add: issued_params_nth gdata_scale)
  next
    assume k: "0 < prefix_len C (prp ! r)"
    show "take (sum_list (map p_numel (take (prefix_len C (prp ! r)) (prp ! r))))
            (t_data (issued_buffer world_size C (prp ! r) (buffers ! r)))
          = map (\<lambda>x. x / of_nat world_size)
              (concat (map gdata (take (prefix_len C (prp ! r)) (map fill_grad (prp ! r)))))"
      by (rule issued_buffer_prefix[OF sh k])
  qed
qed


theorem exactly_one_path_witness:
  "task_ok example_buffers example_params
   \<and> issue_phase 2 example_params example_buffers =
       Inr (4, example_issued_params, example_result_buffers,
            [(BucketReduce 0, 0), (BucketReduce 1, 1)], [GradReduce 0 2, GradReduce 1 1])
   \<and> (0::nat) < length example_params
   \<and> (0::nat) < length (example_params ! 0)
   \<and> (2::nat) < length (example_params ! 0)
   \<and> packed_prefix 4 (example_params ! 0) (example_buffers ! 0) = 2
   \<and> py_slice (t_data (example_result_buffers ! 0)) 0 1 = [1]
   \<and> count_list [(BucketReduce 0, 0), (BucketReduce 1, 1)] (BucketReduce 0, 0) = 1
   \<and> count_list [GradReduce 0 2, GradReduce 1 1] (GradReduce 0 0) = 0
   \<and> count_list [GradReduce 0 2, GradReduce 1 1] (GradReduce 0 2) = 1
   \<and> gdata (example_issued_params ! 0 ! 2) = [1, 2, 3, 4, 5]"
proof -
  have r: "(0::nat) < length example_params" by (simp add: example_params_def)
  have j0: "(0::nat) < length (example_params ! 0)" by (simp add: example_params_def)
  have j2: "(2::nat) < length (example_params ! 0)" by (simp add: example_params_def)
  note t0 = exactly_one_path[OF example_task_ok example_issue r j0]
  note t2 = exactly_one_path[OF example_task_ok example_issue r j2]
  have g0: "map (\<lambda>x. x / of_nat 2) (gdata (fill_grad (example_params ! 0 ! 0))) = [1]"
    by (simp add: example_params_def mk_param_def gdata_def fill_grad_def)
  have g2: "map (\<lambda>x. x / of_nat 2) (gdata (fill_grad (example_params ! 0 ! 2))) = [1, 2, 3, 4, 5]"
    by (simp add: example_params_def mk_param_def gdata_def fill_grad_def eval_nat_numeral)
  have o0: "sum_list (map p_numel (take 0 (example_params ! 0))) = 0"
    "p_numel (example_params ! 0 ! 0) = 1"
    by (simp_all add: example_params_def mk_param_def)
  from t0 have a: "py_slice (t_data (example_result_buffers ! 0)) 0 1 = [1]
     \<and> count_list [(BucketReduce 0, 0), (BucketReduce 1, 1)] (BucketReduce 0, 0) = 1
     \<and> count_list [GradReduce 0 2, GradReduce 1 1] (GradReduce 0 0) = 0"
    unfolding example_prefix g0 o0 by simp
  from t2 have b: "count_list [GradReduce 0 2, GradReduce 1 1] (GradReduce 0 2) = 1
     \<and> gdata (example_issued_params ! 0 ! 2) = [1, 2, 3, 4, 5]"
    unfolding example_prefix g2 by simp
  from example_task_ok example_issue r j0 j2 example_prefix(1) a b show ?thesis
    by simp
qed

text \<open>
  Claim C9 (scenario A). With world size 4, buffers of 1000 elements and element counts
  10, 20 and 5000 on rank 0, on a state where no gradient requires grad and the packed
  gradients can be flattened, a call packs the first two parameters of rank 0: the
  packing loop returns prefix length 2 and final offset 30 and leaves the two gradients
  at offsets 0 and 10 of the buffer, the rest of the buffer as it was. The buffer is
  divided by 4 and one bucket reduce is submitted on it; the gradient of the third
  parameter is divided by 4 in place and one reduce is submitted on it; these are the two
  asynchronous operations of rank 0. When the call returns, the buffer of rank 0 holds
  the result of its reduce, the third gradient the result of its own, and the first two
  gradients are overwritten with their slices of the reduced buffer when the calling rank
  is rank 0 and are left as packed otherwise.
\<close>

theorem scenario_A:
  assumes ok: "task_ok buffers prp" and sp: "shape_preserving recv"
      and cap: "length (t_data (hd buffers)) = 1000"
      and ranks: "length prp = 4"
      and sizes: "map p_numel (prp ! 0) = [10, 20, 5000]"
      and nograd: "list_all (list_all (\<lambda>p. \<not> needs_grad p)) prp"
      and flat: "list_all (prefix_flat 1000) prp"
  shows "\<exists>prp' bufs' bucket_requests requests buffer' prp1 bufs1.
       reduce_grads_task recv buffers prp self 4 = Inr (prp', bufs', bucket_requests, requests)
     \<and> issue_phase 4 prp buffers = Inr (1000, prp1, bufs1, bucket_requests, requests)
     \<and> pack_loop 1000 (map fill_grad (prp ! 0)) 0 0 (buffers ! 0) = Inr (2, 30, buffer')
     \<and> buffer' = (buffers ! 0)\<lparr>t_data :=
           gdata (fill_grad (prp ! 0 ! 0)) @ gdata (fill_grad (prp ! 0 ! 1))
           @ drop 30 (t_data (buffers ! 0))\<rparr>
     \<and> length (gdata (fill_grad (prp ! 0 ! 0))) = 10
     \<and> length (gdata (fill_grad (prp ! 0 ! 1))) = 20
     \<and> bufs1 ! 0 = div_tensor buffer' 4
     \<and> prp1 ! 0 = [fill_grad (prp ! 0 ! 0), fill_grad (prp ! 0 ! 1),
                   scale_grad 4 (fill_grad (prp ! 0 ! 2))]
     \<and> filter (\<lambda>x. snd x = 0) bucket_requests = [(BucketReduce 0, 0)]
     \<and> filter (\<lambda>q. dst q = 0) requests = [GradReduce 0 2]
     \<and> length (filter (\<lambda>x. snd x = 0) bucket_requests)
         + length (filter (\<lambda>q. dst q = 0) requests) = 2
     \<and> bufs' ! 0 = (bufs1 ! 0)\<lparr>t_data := recv (BucketReduce 0) (t_data (bufs1 ! 0))\<rparr>
     \<and> prp' ! 0 =
         (if self = 0
          then [set_gdata (fill_grad (prp ! 0 ! 0)) (py_slice (t_data (bufs' ! 0)) 0 10),
                set_gdata (fill_grad (prp ! 0 ! 1)) (py_slice (t_data (bufs' ! 0)) 10 30),
                recv_grad recv 0 2 (scale_grad 4 (fill_grad (prp ! 0 ! 2)))]
          else [fill_grad (prp ! 0 ! 0), fill_grad (prp ! 0 ! 1),
                recv_grad recv 0 2 (scale_grad 4 (fill_grad (prp ! 0 ! 2)))])"
proof -
  from ranks obtain p0 rest where prp: "prp = p0 # rest" by (cases prp) auto
  have p0: "prp ! 0 = p0" by (simp add: prp)
  have r0: "0 < length prp" by (simp add: prp)
  have k: "prefix_len 1000 p0 = 2"
    using sizes unfolding p0 by (simp add: prefix_len_def)
  have l0: "length p0 = 3"
    using sizes unfolding p0 by (metis length_map length_Cons list.size(3) numeral_3_eq_3)
  obtain a b c where abc: "p0 = [a, b, c]"
    using l0 by (auto simp: length_Suc_conv eval_nat_numeral)
  have na: "p_numel a = 10" and nb: "p_numel b = 20" and nc: "p_numel c = 5000"
    using sizes unfolding p0 abc by simp_all
  note k' = k[unfolded abc]
  note sh = task_ok_rank(1)[OF ok r0, unfolded p0]
  have cap0: "1000 \<le> length (t_data (buffers ! 0))"
    using task_ok_rank(2)[OF ok r0] cap by simp
  have pf0: "prefix_flat 1000 p0" using flat by (simp add: prp)
  define B where "B = (buffers ! 0)\<lparr>t_data :=
           gdata (fill_grad a) @ gdata (fill_grad b) @ drop 30 (t_data (buffers ! 0))\<rparr>"
  have pl: "pack_loop 1000 (map fill_grad p0) 0 0 (buffers ! 0) = Inr (2, 30, B)"
    unfolding pack_loop_fill[OF sh cap0] k
    using pf0 unfolding abc by (simp add: na nb B_def)
  have ga: "length (gdata (fill_grad a)) = 10" and gb: "length (gdata (fill_grad b)) = 20"
    using fill_grad_ok[of a] fill_grad_ok[of b] sh gdata_length[of "fill_grad a"]
      gdata_length[of "fill_grad b"] na nb
    by (simp_all add: abc)
  from nograd have "\<forall>r<length prp. \<forall>p\<in>set (prp ! r). \<not> needs_grad p"
    unfolding list_all_iff by (meson nth_mem)
  from no_needs_grad_suffix[OF this] flat have fe: "first_error 1000 prp = None"
    by (simp add: prefix_flat_all)
  define prp1 where "prp1 = map (issued_params 4 1000) prp"
  define bufs1 where "bufs1 = map2 (issued_buffer 4 1000) prp buffers"
  define breqs where "breqs = concat (map (bucket_requests_of 1000) (enumerate 0 prp))"
  define reqs where "reqs = concat (map (requests_of 1000) (enumerate 0 prp))"
  have ip: "issue_phase 4 prp buffers = Inr (1000, prp1, bufs1, breqs, reqs)"
    using issue_phase_eq[OF ok, of 4] fe
    unfolding cap prp1_def bufs1_def breqs_def reqs_def by simp
  from task_result[OF ok sp fe cap[symmetric], of self 4]
  obtain prp' bufs' where
    res: "reduce_grads_task recv buffers prp self 4 = Inr (prp', bufs', breqs, reqs)"
    and lp: "length (prp' ! 0) = length p0"
    and fin: "\<And>j. j < 3 \<Longrightarrow> prp' ! 0 ! j = final_param recv 4 1000 self 0 j p0 (buffers ! 0)"
    unfolding breqs_def reqs_def using r0 p0 l0 by auto
  have fb: "filter (\<lambda>x. snd x = 0) breqs = [(BucketReduce 0, 0)]"
    unfolding breqs_def prp by (simp add: filter_rank_buckets bucket_requests_of_def k)
  have fr: "filter (\<lambda>q. dst q = 0) reqs = [GradReduce 0 2]"
    unfolding reqs_def prp by (simp add: filter_rank_requests requests_of_def k l0 upt_rec)
  from ok have len: "length buffers = length prp" unfolding task_ok_def by blast
  have ib: "issued_buffer 4 1000 p0 (buffers ! 0) = div_tensor B 4"
    by (simp add: issued_buffer_def k' abc na nb B_def)
  have b1: "bufs1 ! 0 = div_tensor B 4"
    using len r0 by (simp add: bufs1_def p0 ib)
  have p1: "prp1 ! 0 = [fill_grad a, fill_grad b, scale_grad 4 (fill_grad c)]"
    using r0 by (simp add: prp1_def p0 issued_params_def k' abc)
  have bf: "bufs' ! 0 = (bufs1 ! 0)\<lparr>t_data := recv (BucketReduce 0) (t_data (bufs1 ! 0))\<rparr>"
    using task_bufs[OF ok res cap[symmetric] r0] by (simp add: p0 k ib b1)
  have td: "t_data (bufs' ! 0) = recv (BucketReduce 0) (t_data (div_tensor B 4))"
    unfolding bf b1 by simp
  have f0: "prp' ! 0 ! 0 = (if self = 0
      then set_gdata (fill_grad a) (py_slice (t_data (bufs' ! 0)) 0 10) else fill_grad a)"
    using fin[of 0] unfolding td
    by (simp add: final_param_def k' ib[unfolded abc] abc na)
  have f1: "prp' ! 0 ! 1 = (if self = 0
      then set_gdata (fill_grad b) (py_slice (t_data (bufs' ! 0)) 10 30) else fill_grad b)"
    using fin[of 1] unfolding td
    by (simp add: final_param_def k' ib[unfolded abc] abc na nb)
  have f2: "prp' ! 0 ! 2 = recv_grad recv 0 2 (scale_grad 4 (fill_grad c))"
    using fin[of 2]
    by (simp add: final_param_def k' abc)
  have l3: "length (prp' ! 0) = 3" using lp l0 by simp
  have pe: "prp' ! 0 = [prp' ! 0 ! 0, prp' ! 0 ! 1, prp' ! 0 ! 2]"
    using l3 by (auto simp: length_Suc_conv eval_nat_numeral)
  have pv: "prp' ! 0 =
         (if self = 0
          then [set_gdata (fill_grad a) (py_slice (t_data (bufs' ! 0)) 0 10),
                set_gdata (fill_grad b) (py_slice (t_data (bufs' ! 0)) 10 30),
                recv_grad recv 0 2 (scale_grad 4 (fill_grad c))]
          else [fill_grad a, fill_grad b, recv_grad recv 0 2 (scale_grad 4 (fill_grad c))])"
    using f0 f1 f2 by (subst pe) simp
  have i0: "prp ! 0 ! 0 = a" "prp ! 0 ! 1 = b" "prp ! 0 ! 2 = c"
    by (simp_all add: p0 abc eval_nat_numeral)
  show ?thesis
    apply (rule exI[of _ prp'])
    apply (rule exI[of _ bufs'])
    apply (rule exI[of _ breqs])
    apply (rule exI[of _ reqs])
    apply (rule exI[of _ B])
    apply (rule exI[of _ prp1])
    apply (rule exI[of _ bufs1])
    unfolding i0
    apply (intro conjI)
                apply (rule res)
               apply (rule ip)
              apply (simp only: p0 pl)
             apply (rule B_def)
            apply (rule ga)
           apply (rule gb)
          apply (rule b1)
         apply (rule p1)
        apply (rule fb)
       apply (rule fr)
      apply (simp add: fb fr)
     apply (rule bf)
    apply (rule pv)
    done
qed

theorem scenario_A_witness:
  "task_ok scenario_buffers scenario_params
   \<and> shape_preserving keep
   \<and> length (t_data (hd scenario_buffers)) = 1000
   \<and> length scenario_params = 4
   \<and> map p_numel (scenario_params ! 0) = [10, 20, 5000]
   \<and> list_all (list_all (\<lambda>p. \<not> needs_grad p)) scenario_params
   \<and> list_all (prefix_flat 1000) scenario_params
   \<and> (\<exists>prp' bufs' bucket_requests requests buffer' prp1 bufs1.
       reduce_grads_task keep scenario_buffers scenario_params 0 4
         = Inr (prp', bufs', bucket_requests, requests)
     \<and> issue_phase 4 scenario_params scenario_buffers
         = Inr (1000, prp1, bufs1, bucket_requests, requests)
     \<and> pack_loop 1000 (map fill_grad (scenario_params ! 0)) 0 0 (scenario_buffers ! 0)
         = Inr (2, 30, buffer')
     \<and> t_data buffer' = replicate 10 4 @ replicate 20 0 @ replicate 970 0
     \<and> t_data (bufs1 ! 0) = replicate 10 1 @ replicate 20 0 @ replicate 970 0
     \<and> map gdata (prp1 ! 0) = [replicate 10 4, replicate 20 0, replicate 5000 2]
     \<and> filter (\<lambda>x. snd x = 0) bucket_requests = [(BucketReduce 0, 0)]
     \<and> filter (\<lambda>q. dst q = 0) requests = [GradReduce 0 2]
     \<and> length (filter (\<lambda>x. snd x = 0) bucket_requests)
         + length (filter (\<lambda>q. dst q = 0) requests) = 2
     \<and> t_data (bufs' ! 0) = replicate 10 1 @ replicate 20 0 @ replicate 970 0
     \<and> map gdata (prp' ! 0) = [replicate 10 1, replicate 20 0, replicate 5000 2])"
proof -
  have h1: "task_ok scenario_buffers scenario_params"
  proof -
    have "list_all (list_all grad_shape_ok) scenario_params"
      by (simp add: grad_shape_ok_def scenario_params_def mk_param_def)
    moreover have "list_all (\<lambda>b. length (t_data b) = length (t_data (hd scenario_buffers)))
        scenario_buffers"
      unfolding list_all_iff by (simp add: scenario_buffers_def)
    moreover have "scenario_buffers \<noteq> []" "length scenario_buffers = length scenario_params"
      by (simp_all add: scenario_buffers_def scenario_params_def)
    ultimately show ?thesis unfolding task_ok_def by blast
  qed
  have h3: "length (t_data (hd scenario_buffers)) = 1000"
    by (simp add: scenario_buffers_def mk_buffer_def)
  have h4: "length scenario_params = 4" by (simp add: scenario_params_def)
  have h5: "map p_numel (scenario_params ! 0) = [10, 20, 5000]"
    by (simp add: scenario_params_def mk_param_def)
  have h6: "list_all (list_all (\<lambda>p. \<not> needs_grad p)) scenario_params"
    by (simp add: scenario_params_def needs_grad_def mk_param_def)
  have h7: "list_all (prefix_flat 1000) scenario_params"
    by (simp add: scenario_params_def prefix_flat_def prefix_len_def grad_flat_def fill_grad_def
        zeros_like_def zeros_like_layout_def mk_param_def)
  have g0: "gdata (fill_grad (scenario_params ! 0 ! 0)) = replicate 10 4"
    and g1: "gdata (fill_grad (scenario_params ! 0 ! 1)) = replicate 20 0"
    and g2: "gdata (scale_grad 4 (fill_grad (scenario_params ! 0 ! 2))) = replicate 5000 2"
    by (simp_all add: scenario_params_def mk_param_def gdata_def fill_grad_def zeros_like_def
        scale_grad_def div_tensor_def)
  have b0: "t_data (scenario_buffers ! 0) = replicate 1000 0"
    by (simp add: scenario_buffers_def mk_buffer_def)
  from scenario_A[OF h1 keep_shape h3 h4 h5 h6 h7, of 0]
  obtain prp' bufs' bucket_requests requests buffer' prp1 bufs1 where
    c1: "reduce_grads_task keep scenario_buffers scenario_params 0 4
         = Inr (prp', bufs', bucket_requests, requests)"
    and c2: "issue_phase 4 scenario_params scenario_buffers
         = Inr (1000, prp1, bufs1, bucket_requests, requests)"
    and c3: "pack_loop 1000 (map fill_grad (scenario_params ! 0)) 0 0 (scenario_buffers ! 0)
         = Inr (2, 30, buffer')"
    and c4: "buffer' = (scenario_buffers ! 0)\<lparr>t_data :=
           gdata (fill_grad (scenario_params ! 0 ! 0)) @ gdata (fill_grad (scenario_params ! 0 ! 1))
           @ drop 30 (t_data (scenario_buffers ! 0))\<rparr>"
    and c5: "bufs1 ! 0 = div_tensor buffer' 4"
    and c6: "prp1 ! 0 = [fill_grad (scenario_params ! 0 ! 0), fill_grad (scenario_params ! 0 ! 1),
                   scale_grad 4 (fill_grad (scenario_params ! 0 ! 2))]"
    and c7: "filter (\<lambda>x. snd x = 0) bucket_requests = [(BucketReduce 0, 0)]"
    and c8: "filter (\<lambda>q. dst q = 0) requests = [GradReduce 0 2]"
    and c9: "bufs' ! 0 = (bufs1 ! 0)\<lparr>t_data := keep (BucketReduce 0) (t_data (bufs1 ! 0))\<rparr>"
    and c10: "prp' ! 0 =
          [set_gdata (fill_grad (scenario_params ! 0 ! 0)) (py_slice (t_data (bufs' ! 0)) 0 10),
           set_gdata (fill_grad (scenario_params ! 0 ! 1)) (py_slice (t_data (bufs' ! 0)) 10 30),
           recv_grad keep 0 2 (scale_grad 4 (fill_grad (scenario_params ! 0 ! 2)))]"
    by auto
  have d4: "t_data buffer' = replicate 10 4 @ replicate 20 0 @ replicate 970 0"
    unfolding c4 g0 g1 b0 by simp
  have d5: "t_data (bufs1 ! 0) = replicate 10 1 @ replicate 20 0 @ replicate 970 0"
    unfolding c5 by (simp add: div_tensor_def d4)
  have d6: "map gdata (prp1 ! 0) = [replicate 10 4, replicate 20 0, replicate 5000 2]"
    unfolding c6 list.map g0 g1 g2 by (rule refl)
  have d9: "t_data (bufs' ! 0) = replicate 10 1 @ replicate 20 0 @ replicate 970 0"
    unfolding c9 by (simp add: keep_def d5)
  have gs: "\<And>p xs. grad p \<noteq> None \<Longrightarrow> gdata (set_gdata p xs) = xs"
    by (auto simp: gdata_def set_gdata_def)
  have ne: "grad (fill_grad (scenario_params ! 0 ! 0)) \<noteq> None"
    "grad (fill_grad (scenario_params ! 0 ! 1)) \<noteq> None"
    by (simp_all add: fill_grad_def split: option.splits)
  have s0: "py_slice (replicate 10 1 @ replicate 20 0 @ replicate 970 (0::rat)) 0 10 = replicate 10 1"
    by (simp add: py_slice_def)
  have s1: "py_slice (replicate 10 1 @ replicate 20 0 @ replicate 970 (0::rat)) 10 30 = replicate 20 0"
    by (simp add: py_slice_def)
  have d10: "map gdata (prp' ! 0) = [replicate 10 1, replicate 20 0, replicate 5000 2]"
    unfolding c10 d9 s0 s1
    by (simp add: gs ne recv_grad_def keep_def g2 scale_grad_def fill_grad_def set_gdata_def
        gdata_def scenario_params_def mk_param_def div_tensor_def)
  show ?thesis
    apply (intro conjI)
           apply (rule h1)
          apply (rule keep_shape)
         apply (rule h3)
        apply (rule h4)
       apply (rule h5)
      apply (rule h6)
     apply (rule h7)
    apply (rule exI[of _ prp'])
    apply (rule exI[of _ bufs'])
    apply (rule exI[of _ bucket_requests])
    apply (rule exI[of _ requests])
    apply (rule exI[of _ buffer'])
    apply (rule exI[of _ prp1])
    apply (rule exI[of _ bufs1])
    apply (intro conjI)
              apply (rule c1)
             apply (rule c2)
            apply (rule c3)
           apply (rule d4)
          apply (rule d5)
         apply (rule d6)
        apply (rule c7)
       apply (rule c8)
      apply (simp add: c7 c8)
     apply (rule d9)
    apply (rule d10)
    done
qed

end
